theory Spec2Isabelle
  imports Main "HOL-Library.Word" "HOL-Library.AList"
begin

section \<open>The timer library: data model\<close>

text \<open>
  The embedding follows \<^verbatim>\<open>includes/timer/timer.hpp\<close>.

  \<^item> \<^verbatim>\<open>timer_id\<close> is \<^verbatim>\<open>unsigned long long\<close>: a 64-bit word, whose \<open>+\<close> wraps.
    \<^verbatim>\<open>invalid_timer\<close> is \<^verbatim>\<open>-1\<close> converted to that type, the all-ones word.
  \<^item> \<^verbatim>\<open>clock::time_point\<close> and \<^verbatim>\<open>clock::duration\<close> are signed tick counts. They are
    modelled as unbounded integers; a duration may be zero or negative, as in the source.
    Every reading of \<^verbatim>\<open>clock::now()\<close> is a parameter of the function that takes it.
  \<^item> \<^verbatim>\<open>callback\<close> is \<^verbatim>\<open>std::function<void()>\<close>. It may be empty (\<open>None\<close>). A non-empty
    callback acts on the world outside the scheduler, a state of type \<open>'w\<close>, and either
    returns or raises. Callbacks that call back into the manager are outside this model.
  \<^item> The fields \<^verbatim>\<open>id\<close>, \<^verbatim>\<open>last\<close> and \<^verbatim>\<open>step\<close> of \<^verbatim>\<open>class timer\<close> are never written nor
    read by the source; the record leaves them out. The field \<^verbatim>\<open>next\<close> is called
    \<open>next_time\<close> here.
  \<^item> The worker thread, the mutex, \<^verbatim>\<open>delay\<close> and \<^verbatim>\<open>stopped\<close> of \<^verbatim>\<open>class manager\<close> belong to
    the background loop; every operation modelled here runs under the one lock, so the
    model is sequential.
  \<^item> Two classes have a method \<^verbatim>\<open>update\<close>, and \<^verbatim>\<open>interval\<close> is both a field of the timer
    and a method of the manager: \<^verbatim>\<open>timer::update\<close> is \<open>timer_update\<close>, \<^verbatim>\<open>manager::update\<close> is
    \<open>manager_update\<close>, \<^verbatim>\<open>manager::interval\<close> is \<open>manager_interval\<close>.
\<close>

type_synonym timer_id = "64 word"

definition invalid_timer :: timer_id where
  "invalid_timer = - 1"

type_synonym time = int
type_synonym duration = int

datatype 'w outcome = Returned 'w | Raised 'w

type_synonym 'w callback = "('w \<Rightarrow> 'w outcome) option"

record 'w timer =
  handler :: "'w callback"
  next_time :: time
  interval :: duration
  count :: int

text \<open>The constructor: \<^verbatim>\<open>next = clock::now() + interval\<close>.\<close>

definition new_timer :: "'w callback \<Rightarrow> duration \<Rightarrow> int \<Rightarrow> time \<Rightarrow> 'w timer" where
  "new_timer h d c now = \<lparr>handler = h, next_time = now + d, interval = d, count = c\<rparr>"

section \<open>One timer: execute and update\<close>

text \<open>
  \<^verbatim>\<open>execute\<close> calls the handler, then adds the interval to \<^verbatim>\<open>next\<close>. When the handler
  raises, the exception leaves \<^verbatim>\<open>execute\<close> before the addition. Calling an empty
  \<^verbatim>\<open>std::function\<close> raises \<^verbatim>\<open>std::bad_function_call\<close>.
\<close>

datatype 'w executed = ExecOk "'w timer" 'w | ExecThrow "'w timer" 'w

definition execute :: "'w timer \<Rightarrow> 'w \<Rightarrow> 'w executed" where
  "execute t w =
     (case handler t of
        None \<Rightarrow> ExecThrow t w
      | Some h \<Rightarrow>
          (case h w of
             Raised w' \<Rightarrow> ExecThrow t w'
           | Returned w' \<Rightarrow> ExecOk (t\<lparr>next_time := next_time t + interval t\<rparr>) w'))"

text \<open>
  The result of \<^verbatim>\<open>timer::update\<close>: it returns its flag (\<open>True\<close> is "finished"), or an
  exception of the handler passes through it. Both carry the timer and the world as they
  are then, and the number of times the handler was called during this update.
  A loop that never ends is the value \<open>None\<close>.
\<close>

datatype 'w tick = Return bool "'w timer" 'w nat | Throw "'w timer" 'w nat

text \<open>The loop of the branch \<^verbatim>\<open>count == 0\<close>: \<^verbatim>\<open>while (next <= now) execute();\<close>\<close>

partial_function (option) catch_up :: "time \<Rightarrow> 'w timer \<Rightarrow> 'w \<Rightarrow> nat \<Rightarrow> 'w tick option" where
  "catch_up now t w n =
     (if next_time t \<le> now then
        (case execute t w of
           ExecThrow t' w' \<Rightarrow> Some (Throw t' w' (Suc n))
         | ExecOk t' w' \<Rightarrow> catch_up now t' w' (Suc n))
      else Some (Return False t w n))"

text \<open>
  The loop of the branch \<^verbatim>\<open>count > 1\<close>:
  \<^verbatim>\<open>while (next <= now) { execute(); count -= 1; if (count == 1) return true; }\<close>
\<close>

partial_function (option) count_down :: "time \<Rightarrow> 'w timer \<Rightarrow> 'w \<Rightarrow> nat \<Rightarrow> 'w tick option" where
  "count_down now t w n =
     (if next_time t \<le> now then
        (case execute t w of
           ExecThrow t' w' \<Rightarrow> Some (Throw t' w' (Suc n))
         | ExecOk t' w' \<Rightarrow>
             (let t'' = t'\<lparr>count := count t' - 1\<rparr>
              in if count t'' = 1 then Some (Return True t'' w' (Suc n))
                 else count_down now t'' w' (Suc n)))
      else Some (Return False t w n))"

definition timer_update :: "time \<Rightarrow> 'w timer \<Rightarrow> 'w \<Rightarrow> 'w tick option" where
  "timer_update now t w =
     (if handler t = None then Some (Return True t w 0)
      else if next_time t \<le> now then
        (if count t < 0 then
           (case execute t w of
              ExecThrow t' w' \<Rightarrow> Some (Throw t' w' 1)
            | ExecOk t' w' \<Rightarrow> Some (Return True t' w' 1))
         else if count t = 0 then catch_up now t w 0
         else if count t > 1 then count_down now t w 0
         else Some (Return True t w 0))
      else Some (Return False t w 0))"

text \<open>
  A timer as the manager drives it: one update per pass, at the clock reading of that
  pass, until an update reports "finished" (the manager then removes the timer) or a
  handler raises. The number counts the handler's calls over the whole run.
\<close>

fun ticks :: "time list \<Rightarrow> 'w timer \<Rightarrow> 'w \<Rightarrow> nat \<Rightarrow> 'w tick option" where
  "ticks [] t w n = Some (Return False t w n)"
| "ticks (now # nows) t w n =
     (case timer_update now t w of
        None \<Rightarrow> None
      | Some (Throw t' w' k) \<Rightarrow> Some (Throw t' w' (n + k))
      | Some (Return fin t' w' k) \<Rightarrow>
          (if fin then Some (Return True t' w' (n + k)) else ticks nows t' w' (n + k)))"

section \<open>The manager\<close>

text \<open>
  \<^verbatim>\<open>timers\<close> is a hash map from identifiers to timers. It is modelled as an association
  list: the order of the list is the order in which the iteration of \<^verbatim>\<open>manager::update\<close>
  visits the entries, which the hash map leaves unspecified. \<^verbatim>\<open>timers[id] = t\<close> is
  \<open>AList.update\<close> (a new key goes to the end of the list; where the hash map would put
  it is not specified either), \<^verbatim>\<open>find\<close> followed by \<^verbatim>\<open>erase\<close> is \<open>AList.delete\<close>.
  The theorems hold for every manager state, hence for every order of the entries.
\<close>

record 'w manager =
  ids :: timer_id
  timers :: "(timer_id \<times> 'w timer) list"
  remove :: "timer_id list"

text \<open>The constructor: \<^verbatim>\<open>ids(0)\<close>, both containers empty.\<close>

definition manager_init :: "'w manager" where
  "manager_init = \<lparr>ids = 0, timers = [], remove = []\<rparr>"

definition clear :: "'w manager \<Rightarrow> 'w manager" where
  "clear m = m\<lparr>ids := 0, timers := []\<rparr>"

text \<open>
  The loop of \<^verbatim>\<open>get_id\<close>: \<^verbatim>\<open>id = ids++\<close>; the sentinel is skipped, an identifier in use is
  skipped. The result is the identifier and the counter after the loop. The loop does not
  end when every identifier but the sentinel is in use.
\<close>

partial_function (option) get_id_loop ::
  "(timer_id \<times> 'w timer) list \<Rightarrow> timer_id \<Rightarrow> (timer_id \<times> timer_id) option" where
  "get_id_loop ts c =
     (if c = invalid_timer then get_id_loop ts (c + 1)
      else if map_of ts c = None then Some (c, c + 1)
      else get_id_loop ts (c + 1))"

definition get_id :: "'w manager \<Rightarrow> (timer_id \<times> 'w manager) option" where
  "get_id m =
     (case get_id_loop (timers m) (ids m) of
        None \<Rightarrow> None
      | Some (i, c) \<Rightarrow> Some (i, m\<lparr>ids := c\<rparr>))"

text \<open>
  Registration. \<^verbatim>\<open>timeout\<close>, \<^verbatim>\<open>interval\<close> and \<^verbatim>\<open>repeat\<close> share their body
  (\<^verbatim>\<open>id = get_id(); t = new timer(...); timers[id] = t; return id;\<close>), which is
  \<open>register\<close> here. The duration is already in clock ticks (\<^verbatim>\<open>duration_cast\<close> is the
  identity here); \<open>now\<close> is the clock reading the timer's constructor takes.
\<close>

definition register :: "'w timer \<Rightarrow> 'w manager \<Rightarrow> (timer_id \<times> 'w manager) option" where
  "register t m =
     (case get_id m of
        None \<Rightarrow> None
      | Some (i, m') \<Rightarrow> Some (i, m'\<lparr>timers := AList.update i t (timers m')\<rparr>))"

definition timeout :: "'w callback \<Rightarrow> duration \<Rightarrow> time \<Rightarrow> 'w manager \<Rightarrow> (timer_id \<times> 'w manager) option" where
  "timeout h dur now m = register (new_timer h dur (- 1) now) m"

definition manager_interval :: "'w callback \<Rightarrow> duration \<Rightarrow> time \<Rightarrow> 'w manager \<Rightarrow> (timer_id \<times> 'w manager) option" where
  "manager_interval h dur now m = register (new_timer h dur 0 now) m"

text \<open>
  \<^verbatim>\<open>count\<close> is a C++ \<^verbatim>\<open>int\<close>. The sum \<^verbatim>\<open>count + 1\<close> is taken over the integers; for
  \<^verbatim>\<open>count = INT_MAX\<close> the source's addition overflows, which C++ leaves undefined, so the
  theorems about this branch are stated for \<open>count < INT_MAX\<close>.
\<close>

definition INT_MAX :: int where
  "INT_MAX = 2147483647"

definition repeat :: "'w callback \<Rightarrow> duration \<Rightarrow> int \<Rightarrow> time \<Rightarrow> 'w manager \<Rightarrow> (timer_id \<times> 'w manager) option" where
  "repeat h dur c now m =
     (if c \<le> 0 then Some (invalid_timer, m)
      else if c = 1 then timeout h dur now m
      else register (new_timer h dur (c + 1) now) m)"

definition cancel :: "timer_id \<Rightarrow> 'w manager \<Rightarrow> 'w manager" where
  "cancel i m = (if i \<noteq> invalid_timer then m\<lparr>remove := remove m @ [i]\<rparr> else m)"

text \<open>
  The first loop of \<^verbatim>\<open>manager::update\<close>, over the entries that are left to visit. Each
  timer is updated at its own clock reading \<open>clk i\<close>. The result holds the entries after
  their updates, the identifiers pushed on \<^verbatim>\<open>remove\<close>, the world, and for every visited
  timer how many times its handler was called. An exception leaves the loop at once.
\<close>

datatype 'w visited =
    Visited "(timer_id \<times> 'w timer) list" "timer_id list" 'w "(timer_id \<times> nat) list"
  | Escaped "(timer_id \<times> 'w timer) list" "timer_id list" 'w "(timer_id \<times> nat) list"

fun visit :: "(timer_id \<Rightarrow> time) \<Rightarrow> (timer_id \<times> 'w timer) list \<Rightarrow> 'w \<Rightarrow> 'w visited option" where
  "visit clk [] w = Some (Visited [] [] w [])"
| "visit clk ((i, t) # ts) w =
     (case timer_update (clk i) t w of
        None \<Rightarrow> None
      | Some (Throw t' w' k) \<Rightarrow> Some (Escaped ((i, t') # ts) [] w' [(i, k)])
      | Some (Return fin t' w' k) \<Rightarrow>
          (case visit clk ts w' of
             None \<Rightarrow> None
           | Some (Visited ts' rs w'' lg) \<Rightarrow>
               Some (Visited ((i, t') # ts') ((if fin then [i] else []) @ rs) w'' ((i, k) # lg))
           | Some (Escaped ts' rs w'' lg) \<Rightarrow>
               Some (Escaped ((i, t') # ts') ((if fin then [i] else []) @ rs) w'' ((i, k) # lg))))"

text \<open>The second loop: every identifier of \<^verbatim>\<open>remove\<close> is looked up and, if found, erased.\<close>

definition erase_all :: "timer_id list \<Rightarrow> (timer_id \<times> 'w timer) list \<Rightarrow> (timer_id \<times> 'w timer) list" where
  "erase_all rs ts = fold AList.delete rs ts"

text \<open>
  \<^verbatim>\<open>manager::update\<close>. When a handler raises, the exception leaves \<^verbatim>\<open>update\<close> before the
  second loop: nothing is erased and \<^verbatim>\<open>remove\<close> keeps its entries.
\<close>

datatype 'w pass =
    Done "'w manager" 'w "(timer_id \<times> nat) list"
  | Thrown "'w manager" 'w "(timer_id \<times> nat) list"

definition manager_update :: "(timer_id \<Rightarrow> time) \<Rightarrow> 'w manager \<Rightarrow> 'w \<Rightarrow> 'w pass option" where
  "manager_update clk m w =
     (case visit clk (timers m) w of
        None \<Rightarrow> None
      | Some (Escaped ts rs w' lg) \<Rightarrow> Some (Thrown (m\<lparr>timers := ts, remove := remove m @ rs\<rparr>) w' lg)
      | Some (Visited ts rs w' lg) \<Rightarrow>
          Some (Done (m\<lparr>timers := erase_all (remove m @ rs) ts, remove := []\<rparr>) w' lg))"

text \<open>The handler calls of a whole pass.\<close>

definition total_calls :: "(timer_id \<times> nat) list \<Rightarrow> nat" where
  "total_calls lg = sum_list (map snd lg)"

section \<open>Postconditions and invariants\<close>

text \<open>
  What a loop's result says about the timer it started from: the handler and the interval
  are untouched, \<open>next_time\<close> has moved by one interval for every call that returned, and the
  call that raised, if any, moved nothing.
\<close>

definition catch_up_post :: "time \<Rightarrow> 'w timer \<Rightarrow> nat \<Rightarrow> 'w tick \<Rightarrow> bool" where
  "catch_up_post now t n r =
     (case r of
        Return fin t' w' k \<Rightarrow>
          \<not> fin \<and> now < next_time t' \<and> handler t' = handler t \<and> interval t' = interval t \<and>
          count t' = count t \<and> n \<le> k \<and> next_time t' = next_time t + int (k - n) * interval t
      | Throw t' w' k \<Rightarrow>
          n < k \<and> handler t' = handler t \<and> interval t' = interval t \<and>
          count t' = count t \<and> next_time t' = next_time t + int (k - Suc n) * interval t)"

definition count_down_post :: "time \<Rightarrow> 'w timer \<Rightarrow> nat \<Rightarrow> 'w tick \<Rightarrow> bool" where
  "count_down_post now t n r =
     (case r of
        Return fin t' w' k \<Rightarrow>
          n \<le> k \<and> handler t' = handler t \<and> interval t' = interval t \<and>
          count t' = count t - int (k - n) \<and>
          next_time t' = next_time t + int (k - n) * interval t \<and>
          (if fin then count t' = 1 \<and> n < k
           else now < next_time t' \<and> (count t \<le> 1 \<or> 1 < count t'))
      | Throw t' w' k \<Rightarrow>
          n < k \<and> handler t' = handler t \<and> interval t' = interval t \<and>
          count t' = count t - int (k - Suc n) \<and>
          next_time t' = next_time t + int (k - Suc n) * interval t)"

text \<open>The same for a whole update; \<open>count\<close> moves only in the branch \<^verbatim>\<open>count > 1\<close>.\<close>

definition update_post :: "time \<Rightarrow> 'w timer \<Rightarrow> 'w tick \<Rightarrow> bool" where
  "update_post now t r =
     (case r of
        Return fin t' w' k \<Rightarrow>
          handler t' = handler t \<and> interval t' = interval t \<and>
          next_time t' = next_time t + int k * interval t \<and>
          count t' = (if 1 < count t then count t - int k else count t) \<and>
          (fin \<or> handler t' \<noteq> None \<and> now < next_time t')
      | Throw t' w' k \<Rightarrow>
          0 < k \<and> handler t' = handler t \<and> interval t' = interval t \<and>
          next_time t' = next_time t + int (k - 1) * interval t \<and>
          count t' = (if 1 < count t then count t - int (k - 1) else count t))"

text \<open>The keys of \<^verbatim>\<open>timers\<close>: pairwise distinct, and none is the invalid identifier.\<close>

definition keys_ok :: "'w manager \<Rightarrow> bool" where
  "keys_ok m = (distinct (map fst (timers m)) \<and> invalid_timer \<notin> fst ` set (timers m))"

text \<open>The part of an update's result that decides the later firings.\<close>

definition scheduling_state :: "'w tick \<Rightarrow> time \<times> int" where
  "scheduling_state r =
     (case r of
        Return fin t w k \<Rightarrow> (next_time t, count t)
      | Throw t w k \<Rightarrow> (next_time t, count t))"

text \<open>A bounded timer after \<open>k\<close> calls of its handler that returned.\<close>

definition advanced :: "'w timer \<Rightarrow> nat \<Rightarrow> 'w timer \<Rightarrow> bool" where
  "advanced t k t' =
     (handler t' = handler t \<and> interval t' = interval t \<and>
      next_time t' = next_time t + int k * interval t \<and> count t' = count t - int k)"

section \<open>Lemmas about one timer\<close>

lemma execute_returned:
  "handler t = Some h \<Longrightarrow> h w = Returned w' \<Longrightarrow>
   execute t w = ExecOk (t\<lparr>next_time := next_time t + interval t\<rparr>) w'"
  by (simp add: execute_def)

lemma execute_raised:
  "handler t = Some h \<Longrightarrow> h w = Raised w' \<Longrightarrow> execute t w = ExecThrow t w'"
  by (simp add: execute_def)

lemma execute_cases:
  "execute t w = ExecOk t' w' \<Longrightarrow> t' = t\<lparr>next_time := next_time t + interval t\<rparr>"
  "execute t w = ExecThrow t' w' \<Longrightarrow> t' = t"
  by (auto simp: execute_def split: option.splits outcome.splits)

lemma catch_up_steps:
  "handler t = Some (\<lambda>w. Returned (f w)) \<Longrightarrow>
   (\<forall>j<k. next_time t + int j * interval t \<le> now) \<Longrightarrow>
   \<not> next_time t + int k * interval t \<le> now \<Longrightarrow>
   catch_up now t w n =
     Some (Return False (t\<lparr>next_time := next_time t + int k * interval t\<rparr>) ((f ^^ k) w) (n + k))"
proof (induction k arbitrary: t w n)
  case 0
  then show ?case by (subst catch_up.simps) simp
next
  case (Suc k)
  let ?t = "t\<lparr>next_time := next_time t + interval t\<rparr>"
  from Suc.prems(2) have due: "next_time t \<le> now" by force
  have ex: "execute t w = ExecOk ?t (f w)"
    using Suc.prems(1) by (simp add: execute_returned)
  have a: "\<forall>j<k. next_time ?t + int j * interval ?t \<le> now"
  proof (intro allI impI)
    fix j assume "j < k"
    then have "next_time t + int (Suc j) * interval t \<le> now" using Suc.prems(2) by auto
    then show "next_time ?t + int j * interval ?t \<le> now" by (simp add: algebra_simps)
  qed
  have b: "\<not> next_time ?t + int k * interval ?t \<le> now"
    using Suc.prems(3) by (simp add: algebra_simps)
  have h: "handler ?t = Some (\<lambda>w. Returned (f w))" using Suc.prems(1) by simp
  have "catch_up now t w n = catch_up now ?t (f w) (Suc n)"
    by (subst catch_up.simps) (simp add: due ex)
  also have "\<dots> = Some (Return False (?t\<lparr>next_time := next_time ?t + int k * interval ?t\<rparr>) ((f ^^ k) (f w)) (Suc n + k))"
    by (rule Suc.IH [OF h a b])
  finally show ?case by (simp add: funpow_swap1 algebra_simps)
qed

lemma catch_up_terminates:
  "0 < interval t \<Longrightarrow> \<exists>r. catch_up now t w n = Some r"
proof (induction "nat (now + 1 - next_time t)" arbitrary: t w n rule: less_induct)
  case less
  show ?case
  proof (cases "next_time t \<le> now")
    case False
    then show ?thesis by (subst catch_up.simps) simp
  next
    case True
    show ?thesis
    proof (cases "execute t w")
      case (ExecThrow t' w')
      then show ?thesis using True by (subst catch_up.simps) simp
    next
      case (ExecOk t' w')
      then have t': "t' = t\<lparr>next_time := next_time t + interval t\<rparr>"
        by (rule execute_cases)
      have "\<exists>r. catch_up now t' w' (Suc n) = Some r"
        by (rule less.hyps) (use t' less.prems True in auto)
      then show ?thesis using True ExecOk by (subst catch_up.simps) simp
    qed
  qed
qed

lemma catch_up_post:
  assumes "catch_up now t w n = Some r"
  shows "catch_up_post now t n r"
proof (rule catch_up.raw_induct [where P = "\<lambda>now t w n r. catch_up_post now t n r", OF _ assms])
  fix cu :: "time \<Rightarrow> 'a timer \<Rightarrow> 'a \<Rightarrow> nat \<Rightarrow> 'a tick option" and now t w n r
  assume IH: "\<And>now t w n r. cu now t w n = Some r \<Longrightarrow> catch_up_post now t n r"
    and eq: "(if next_time t \<le> now
          then case execute t w of
               ExecOk t' w' \<Rightarrow> cu now t' w' (Suc n)
               | ExecThrow t' w' \<Rightarrow> Some (Throw t' w' (Suc n))
          else Some (Return False t w n)) = Some r"
  show "catch_up_post now t n r"
  proof (cases "next_time t \<le> now")
    case False
    then show ?thesis using eq by (auto simp: catch_up_post_def)
  next
    case True
    show ?thesis
    proof (cases "execute t w")
      case (ExecThrow t1 w1)
      then have "t1 = t" by (rule execute_cases)
      then show ?thesis using True ExecThrow eq by (auto simp: catch_up_post_def)
    next
      case (ExecOk t1 w1)
      then have t1: "t1 = t\<lparr>next_time := next_time t + interval t\<rparr>"
        by (rule execute_cases)
      have "cu now t1 w1 (Suc n) = Some r" using True ExecOk eq by simp
      from IH [OF this] show ?thesis
        by (cases r) (auto simp: catch_up_post_def t1 algebra_simps Suc_diff_le)
    qed
  qed
qed

lemma count_down_post:
  assumes "count_down now t w n = Some r"
  shows "count_down_post now t n r"
proof (rule count_down.raw_induct [where P = "\<lambda>now t w n r. count_down_post now t n r", OF _ assms])
  fix cd :: "time \<Rightarrow> 'a timer \<Rightarrow> 'a \<Rightarrow> nat \<Rightarrow> 'a tick option" and now t w n r
  assume IH: "\<And>now t w n r. cd now t w n = Some r \<Longrightarrow> count_down_post now t n r"
    and eq: "(if next_time t \<le> now
          then case execute t w of
               ExecOk t' w' \<Rightarrow>
                 let t'' = t'\<lparr>count := count t' - 1\<rparr>
                 in if count t'' = 1 then Some (Return True t'' w' (Suc n))
                    else cd now t'' w' (Suc n)
               | ExecThrow t' w' \<Rightarrow> Some (Throw t' w' (Suc n))
          else Some (Return False t w n)) = Some r"
  show "count_down_post now t n r"
  proof (cases "next_time t \<le> now")
    case False
    then show ?thesis using eq by (auto simp: count_down_post_def)
  next
    case True
    show ?thesis
    proof (cases "execute t w")
      case (ExecThrow t1 w1)
      then have "t1 = t" by (rule execute_cases)
      then show ?thesis using True ExecThrow eq by (auto simp: count_down_post_def)
    next
      case (ExecOk t1 w1)
      then have t1: "t1 = t\<lparr>next_time := next_time t + interval t\<rparr>"
        by (rule execute_cases)
      let ?t2 = "t1\<lparr>count := count t1 - 1\<rparr>"
      show ?thesis
      proof (cases "count ?t2 = 1")
        case True
        then have "r = Return True ?t2 w1 (Suc n)"
          using \<open>next_time t \<le> now\<close> ExecOk eq by (simp add: Let_def)
        then show ?thesis using True by (simp add: count_down_post_def t1)
      next
        case False
        then have "cd now ?t2 w1 (Suc n) = Some r"
          using \<open>next_time t \<le> now\<close> ExecOk eq by (simp add: Let_def)
        from IH [OF this] False show ?thesis
          by (cases r) (auto simp: count_down_post_def t1 algebra_simps Suc_diff_le split: if_splits)
      qed
    qed
  qed
qed

lemma count_down_normal:
  "handler t = Some (\<lambda>w. Returned (f w)) \<Longrightarrow> 1 < count t \<Longrightarrow>
   \<exists>fin t' k. count_down now t w n = Some (Return fin t' ((f ^^ k) w) (n + k))"
proof (induction "nat (count t)" arbitrary: t w n rule: less_induct)
  case less
  show ?case
  proof (cases "next_time t \<le> now")
    case False
    then have "count_down now t w n = Some (Return False t ((f ^^ 0) w) (n + 0))"
      by (subst count_down.simps) simp
    then show ?thesis by blast
  next
    case True
    let ?t1 = "t\<lparr>next_time := next_time t + interval t\<rparr>"
    let ?t2 = "?t1\<lparr>count := count ?t1 - 1\<rparr>"
    have ex: "execute t w = ExecOk ?t1 (f w)"
      using less.prems(1) by (simp add: execute_returned)
    show ?thesis
    proof (cases "count ?t2 = 1")
      case True
      then have "count_down now t w n = Some (Return True ?t2 ((f ^^ 1) w) (n + 1))"
        using \<open>next_time t \<le> now\<close> ex by (subst count_down.simps) (simp add: Let_def)
      then show ?thesis by blast
    next
      case False
      then have step: "count_down now t w n = count_down now ?t2 (f w) (Suc n)"
        using \<open>next_time t \<le> now\<close> ex by (subst count_down.simps) (simp add: Let_def)
      have "\<exists>fin t' k. count_down now ?t2 (f w) (Suc n) = Some (Return fin t' ((f ^^ k) (f w)) (Suc n + k))"
        by (rule less.hyps) (use less.prems False in auto)
      then obtain fin t' k where
        "count_down now ?t2 (f w) (Suc n) = Some (Return fin t' ((f ^^ k) (f w)) (Suc n + k))"
        by blast
      then have "count_down now t w n = Some (Return fin t' ((f ^^ Suc k) w) (n + Suc k))"
        using step by (simp add: funpow_swap1)
      then show ?thesis by blast
    qed
  qed
qed

lemma elapsed_exists:
  "0 < (P::int) \<Longrightarrow> \<exists>k::nat. \<forall>j. (j < k) = (nx + int j * P \<le> now)"
proof (induction "nat (now + 1 - nx)" arbitrary: nx rule: less_induct)
  case less
  show ?case
  proof (cases "nx \<le> now")
    case False
    have "\<forall>j::nat. (j < 0) = (nx + int j * P \<le> now)"
    proof
      fix j :: nat
      have "0 \<le> int j * P" using less.prems by simp
      then show "(j < 0) = (nx + int j * P \<le> now)" using False by simp
    qed
    then show ?thesis by blast
  next
    case True
    have "\<exists>k::nat. \<forall>j. (j < k) = ((nx + P) + int j * P \<le> now)"
      by (rule less.hyps) (use less.prems True in auto)
    then obtain k :: nat where k: "\<And>j. (j < k) = ((nx + P) + int j * P \<le> now)"
      by blast
    have "\<forall>j. (j < Suc k) = (nx + int j * P \<le> now)"
    proof
      fix j
      show "(j < Suc k) = (nx + int j * P \<le> now)"
      proof (cases j)
        case 0
        then show ?thesis using True by simp
      next
        case (Suc i)
        then show ?thesis using k [of i] by (simp add: algebra_simps)
      qed
    qed
    then show ?thesis by blast
  qed
qed

lemma catch_up_normal:
  assumes "handler t = Some (\<lambda>w. Returned (f w))" and "0 < interval t"
  shows "\<exists>k. catch_up now t w n =
           Some (Return False (t\<lparr>next_time := next_time t + int k * interval t\<rparr>) ((f ^^ k) w) (n + k)) \<and>
         (\<forall>j. (j < k) = (next_time t + int j * interval t \<le> now))"
proof -
  from elapsed_exists [OF assms(2)] obtain k :: nat
    where k: "\<forall>j. (j < k) = (next_time t + int j * interval t \<le> now)"
    by blast
  then have "\<forall>j<k. next_time t + int j * interval t \<le> now"
    and "\<not> next_time t + int k * interval t \<le> now"
    by auto
  from catch_up_steps [OF assms(1) this] k show ?thesis by blast
qed

lemma catch_up_diverges:
  assumes "handler t = Some (\<lambda>w. Returned (f w))" and "interval t = 0" and "next_time t \<le> now"
  shows "catch_up now t w n = None"
proof (rule ccontr)
  assume "catch_up now t w n \<noteq> None"
  then obtain r where r: "catch_up now t w n = Some r" by blast
  have "handler t = Some (\<lambda>w. Returned (f w)) \<and> interval t = 0 \<and> next_time t \<le> now \<longrightarrow> False"
  proof (rule catch_up.raw_induct [where P = "\<lambda>now t w n r.
      handler t = Some (\<lambda>w. Returned (f w)) \<and> interval t = 0 \<and> next_time t \<le> now \<longrightarrow> False", OF _ r])
    fix cu :: "time \<Rightarrow> 'a timer \<Rightarrow> 'a \<Rightarrow> nat \<Rightarrow> 'a tick option" and now t w n r
    assume IH: "\<And>now t w n r. cu now t w n = Some r \<Longrightarrow>
        handler t = Some (\<lambda>w. Returned (f w)) \<and> interval t = 0 \<and> next_time t \<le> now \<longrightarrow> False"
      and eq: "(if next_time t \<le> now
          then case execute t w of
               ExecOk t' w' \<Rightarrow> cu now t' w' (Suc n)
               | ExecThrow t' w' \<Rightarrow> Some (Throw t' w' (Suc n))
          else Some (Return False t w n)) = Some r"
    show "handler t = Some (\<lambda>w. Returned (f w)) \<and> interval t = 0 \<and> next_time t \<le> now \<longrightarrow> False"
    proof
      assume a: "handler t = Some (\<lambda>w. Returned (f w)) \<and> interval t = 0 \<and> next_time t \<le> now"
      let ?t1 = "t\<lparr>next_time := next_time t + interval t\<rparr>"
      have "execute t w = ExecOk ?t1 (f w)" using a by (simp add: execute_returned)
      then have "cu now ?t1 (f w) (Suc n) = Some r" using a eq by simp
      from IH [OF this] a show False by simp
    qed
  qed
  with assms show False by simp
qed

lemma count_down_terminates_count:
  "1 < count t \<Longrightarrow> \<exists>r. count_down now t w n = Some r"
proof (induction "nat (count t)" arbitrary: t w n rule: less_induct)
  case less
  show ?case
  proof (cases "next_time t \<le> now")
    case False
    then show ?thesis by (subst count_down.simps) simp
  next
    case True
    show ?thesis
    proof (cases "execute t w")
      case (ExecThrow t' w')
      then show ?thesis using True by (subst count_down.simps) simp
    next
      case (ExecOk t1 w1)
      then have t1: "t1 = t\<lparr>next_time := next_time t + interval t\<rparr>"
        by (rule execute_cases)
      let ?t2 = "t1\<lparr>count := count t1 - 1\<rparr>"
      show ?thesis
      proof (cases "count ?t2 = 1")
        case True
        then show ?thesis using \<open>next_time t \<le> now\<close> ExecOk
          by (subst count_down.simps) (simp add: Let_def)
      next
        case False
        have "\<exists>r. count_down now ?t2 w1 (Suc n) = Some r"
          by (rule less.hyps) (use t1 less.prems False in auto)
        then show ?thesis using \<open>next_time t \<le> now\<close> ExecOk False
          by (subst count_down.simps) (simp add: Let_def)
      qed
    qed
  qed
qed

lemma count_down_terminates_interval:
  "0 < interval t \<Longrightarrow> \<exists>r. count_down now t w n = Some r"
proof (induction "nat (now + 1 - next_time t)" arbitrary: t w n rule: less_induct)
  case less
  show ?case
  proof (cases "next_time t \<le> now")
    case False
    then show ?thesis by (subst count_down.simps) simp
  next
    case True
    show ?thesis
    proof (cases "execute t w")
      case (ExecThrow t' w')
      then show ?thesis using True by (subst count_down.simps) simp
    next
      case (ExecOk t1 w1)
      then have t1: "t1 = t\<lparr>next_time := next_time t + interval t\<rparr>"
        by (rule execute_cases)
      let ?t2 = "t1\<lparr>count := count t1 - 1\<rparr>"
      show ?thesis
      proof (cases "count ?t2 = 1")
        case True
        then show ?thesis using \<open>next_time t \<le> now\<close> ExecOk
          by (subst count_down.simps) (simp add: Let_def)
      next
        case False
        have "\<exists>r. count_down now ?t2 w1 (Suc n) = Some r"
          by (rule less.hyps) (use t1 less.prems True in auto)
        then show ?thesis using \<open>next_time t \<le> now\<close> ExecOk False
          by (subst count_down.simps) (simp add: Let_def)
      qed
    qed
  qed
qed

lemma update_post:
  assumes "timer_update now t w = Some r"
  shows "update_post now t r"
proof (cases "handler t = None \<or> \<not> next_time t \<le> now \<or> count t = 1")
  case True
  then show ?thesis using assms
    by (auto simp: timer_update_def update_post_def split: if_splits)
next
  case False
  then have h: "handler t \<noteq> None" and due: "next_time t \<le> now" and c1: "count t \<noteq> 1"
    by auto
  consider "count t < 0" | "count t = 0" | "1 < count t" using c1 by linarith
  then show ?thesis
  proof cases
    case 1
    show ?thesis
    proof (cases "execute t w")
      case (ExecOk t1 w1)
      then have "t1 = t\<lparr>next_time := next_time t + interval t\<rparr>" by (rule execute_cases)
      then show ?thesis using assms h due 1 ExecOk
        by (auto simp: timer_update_def update_post_def)
    next
      case (ExecThrow t1 w1)
      then have "t1 = t" by (rule execute_cases)
      then show ?thesis using assms h due 1 ExecThrow
        by (auto simp: timer_update_def update_post_def)
    qed
  next
    case 2
    then have "catch_up now t w 0 = Some r"
      using assms h due by (simp add: timer_update_def)
    from catch_up_post [OF this] show ?thesis using 2 h
      by (cases r) (auto simp: catch_up_post_def update_post_def)
  next
    case 3
    then have "count_down now t w 0 = Some r"
      using assms h due by (simp add: timer_update_def)
    from count_down_post [OF this] show ?thesis using 3 h
      by (cases r) (auto simp: count_down_post_def update_post_def split: if_splits)
  qed
qed

lemma update_idle:
  "handler t \<noteq> None \<Longrightarrow> now < next_time t \<Longrightarrow> timer_update now t w = Some (Return False t w 0)"
  by (simp add: timer_update_def)

lemma update_one_shot:
  "count t < 0 \<Longrightarrow> handler t = Some h \<Longrightarrow> h w = Returned w' \<Longrightarrow> next_time t \<le> now \<Longrightarrow>
   timer_update now t w = Some (Return True (t\<lparr>next_time := next_time t + interval t\<rparr>) w' 1)"
  by (simp add: timer_update_def execute_returned)

lemma update_one_shot_Return:
  "count t < 0 \<Longrightarrow> handler t \<noteq> None \<Longrightarrow> next_time t \<le> now \<Longrightarrow>
   timer_update now t w = Some (Return fin t' w' k) \<Longrightarrow> fin \<and> k = 1"
  by (auto simp: timer_update_def split: executed.splits)

lemma update_terminates:
  "0 < interval t \<Longrightarrow> \<exists>r. timer_update now t w = Some r"
  using catch_up_terminates [of t now w 0] count_down_terminates_interval [of t now w 0]
  by (auto simp: timer_update_def split: executed.splits)

section \<open>Lemmas about a pass of the manager\<close>

lemma filter_delete:
  "filter P (AList.delete r ts) = filter (\<lambda>p. fst p \<noteq> r \<and> P p) ts"
  by (induction ts) (auto simp: AList.delete_eq)

lemma erase_all_filter: "erase_all rs ts = filter (\<lambda>p. fst p \<notin> set rs) ts"
proof (induction rs arbitrary: ts)
  case Nil
  then show ?case by (simp add: erase_all_def)
next
  case (Cons r rs)
  have "erase_all (r # rs) ts = erase_all rs (AList.delete r ts)"
    by (simp add: erase_all_def)
  also have "\<dots> = filter (\<lambda>p. fst p \<notin> set rs) (AList.delete r ts)"
    by (rule Cons.IH)
  also have "\<dots> = filter (\<lambda>p. fst p \<noteq> r \<and> fst p \<notin> set rs) ts"
    by (rule filter_delete)
  also have "\<dots> = filter (\<lambda>p. fst p \<notin> set (r # rs)) ts"
    by (rule filter_cong) auto
  finally show ?case .
qed

lemma visit_Visited_keys:
  "visit clk ts w = Some (Visited ts' rs w' lg) \<Longrightarrow>
   map fst ts' = map fst ts \<and> map fst lg = map fst ts \<and> set rs \<subseteq> fst ` set ts"
proof (induction ts arbitrary: w ts' rs w' lg)
  case Nil
  then show ?case by simp
next
  case (Cons p ts)
  obtain i t where p: "p = (i, t)" by (cases p)
  from Cons.prems obtain fin t1 w1 k where
    u: "timer_update (clk i) t w = Some (Return fin t1 w1 k)"
    by (auto simp: p split: option.splits tick.splits)
  from Cons.prems u obtain ts1 rs1 lg1 where
    v: "visit clk ts w1 = Some (Visited ts1 rs1 w' lg1)"
    and r: "ts' = (i, t1) # ts1" "rs = (if fin then [i] else []) @ rs1" "lg = (i, k) # lg1"
    by (auto simp: p split: option.splits visited.splits)
  from Cons.IH [OF v] show ?case by (auto simp: p r)
qed

lemma visit_Escaped_keys:
  "visit clk ts w = Some (Escaped ts' rs w' lg) \<Longrightarrow>
   map fst ts' = map fst ts \<and> set rs \<subseteq> fst ` set ts"
proof (induction ts arbitrary: w ts' rs w' lg)
  case Nil
  then show ?case by simp
next
  case (Cons p ts)
  obtain i t where p: "p = (i, t)" by (cases p)
  show ?case
  proof (cases "timer_update (clk i) t w")
    case None
    then show ?thesis using Cons.prems by (simp add: p)
  next
    case (Some r)
    show ?thesis
    proof (cases r)
      case (Throw t1 w1 k)
      then show ?thesis using Cons.prems Some by (auto simp: p)
    next
      case (Return fin t1 w1 k)
      from Cons.prems Some Return obtain ts1 rs1 lg1 where
        v: "visit clk ts w1 = Some (Escaped ts1 rs1 w' lg1)"
        and r: "ts' = (i, t1) # ts1" "rs = (if fin then [i] else []) @ rs1"
        by (auto simp: p split: option.splits visited.splits)
      from Cons.IH [OF v] show ?thesis by (auto simp: p r)
    qed
  qed
qed

lemma visit_one_shot:
  "visit clk ts w = Some (Visited ts' rs w' lg) \<Longrightarrow> (i, t) \<in> set ts \<Longrightarrow>
   count t < 0 \<Longrightarrow> handler t \<noteq> None \<Longrightarrow> next_time t \<le> clk i \<Longrightarrow>
   i \<in> set rs \<and> (i, 1) \<in> set lg"
proof (induction ts arbitrary: w ts' rs w' lg)
  case Nil
  then show ?case by simp
next
  case (Cons p ts)
  obtain j u where p: "p = (j, u)" by (cases p)
  from Cons.prems(1) obtain fin t1 w1 k where
    u: "timer_update (clk j) u w = Some (Return fin t1 w1 k)"
    by (auto simp: p split: option.splits tick.splits)
  from Cons.prems(1) u obtain ts1 rs1 lg1 where
    v: "visit clk ts w1 = Some (Visited ts1 rs1 w' lg1)"
    and r: "ts' = (j, t1) # ts1" "rs = (if fin then [j] else []) @ rs1" "lg = (j, k) # lg1"
    by (auto simp: p split: option.splits visited.splits)
  show ?case
  proof (cases "(i, t) = (j, u)")
    case True
    then have "fin \<and> k = 1"
      using update_one_shot_Return [of u "clk j" w fin t1 w1 k] u Cons.prems by simp
    then show ?thesis using True r by simp
  next
    case False
    then have "(i, t) \<in> set ts" using Cons.prems(2) by (auto simp: p)
    from Cons.IH [OF v this Cons.prems(3-5)] show ?thesis by (auto simp: r)
  qed
qed

lemma register_stores:
  "register t m = Some (i, m') \<Longrightarrow> map_of (timers m') i = Some t"
  by (auto simp: register_def update_conv' split: option.splits)

lemma manager_update_one_shot:
  assumes "manager_update clk m w = Some (Done m' w' lg)" and "(i, t) \<in> set (timers m)"
    and "count t < 0" and "handler t \<noteq> None" and "next_time t \<le> clk i"
  shows "i \<notin> fst ` set (timers m') \<and> (i, 1) \<in> set lg"
proof -
  from assms(1) obtain ts rs where
    v: "visit clk (timers m) w = Some (Visited ts rs w' lg)"
    and m': "m' = m\<lparr>timers := erase_all (remove m @ rs) ts, remove := []\<rparr>"
    by (auto simp: manager_update_def split: option.splits visited.splits)
  from visit_one_shot [OF v assms(2-5)] have "i \<in> set rs" and lg: "(i, 1) \<in> set lg"
    by simp_all
  then have "i \<notin> fst ` set (erase_all (remove m @ rs) ts)"
    by (auto simp: erase_all_filter)
  then show ?thesis using lg by (simp add: m')
qed

section \<open>One-shot timers\<close>

text \<open>
  C2. A one-shot timer (negative \<open>count\<close>) with a non-empty handler: an update at any
  time at or after \<open>next_time\<close> calls the handler exactly once, adds exactly one interval
  to \<open>next_time\<close> and returns "finished"; after a pass of the manager in which the timer was
  due, its identifier is no longer a key of \<open>timers\<close>, and the pass called its handler
  once. \<open>timeout\<close> registers such a timer, due at the registration time plus the delay.
\<close>

theorem one_shot_fires_once_then_removed:
  assumes "count t < 0" and "handler t = Some h" and "next_time t \<le> now"
  shows "(h w = Returned w' \<longrightarrow>
           timer_update now t w =
             Some (Return True (t\<lparr>next_time := next_time t + interval t\<rparr>) w' 1)) \<and>
         ((i, t) \<in> set (timers m) \<and> clk i = now \<and>
          manager_update clk m w = Some (Done m' w'' lg) \<longrightarrow>
            i \<notin> fst ` set (timers m') \<and> (i, 1) \<in> set lg) \<and>
         (timeout (Some h) d now0 m0 = Some (i0, m1) \<longrightarrow>
            map_of (timers m1) i0 =
              Some \<lparr>handler = Some h, next_time = now0 + d, interval = d, count = - 1\<rparr>)"
proof (intro conjI impI)
  assume "h w = Returned w'"
  with assms show "timer_update now t w =
      Some (Return True (t\<lparr>next_time := next_time t + interval t\<rparr>) w' 1)"
    by (simp add: update_one_shot)
next
  assume a: "(i, t) \<in> set (timers m) \<and> clk i = now \<and>
    manager_update clk m w = Some (Done m' w'' lg)"
  then have "manager_update clk m w = Some (Done m' w'' lg)" and "(i, t) \<in> set (timers m)"
    and "next_time t \<le> clk i" and "handler t \<noteq> None"
    using assms by simp_all
  from manager_update_one_shot [OF this(1,2) assms(1) this(4,3)]
  show "i \<notin> fst ` set (timers m')" and "(i, 1) \<in> set lg" by simp_all
next
  assume "timeout (Some h) d now0 m0 = Some (i0, m1)"
  then show "map_of (timers m1) i0 =
      Some \<lparr>handler = Some h, next_time = now0 + d, interval = d, count = - 1\<rparr>"
    by (simp add: timeout_def new_timer_def register_stores)
qed

theorem one_shot_fires_once_then_removed_witness:
  "timer_update 35 \<lparr>handler = Some (\<lambda>w. Returned (Suc w)), next_time = 10, interval = 10, count = - 1\<rparr> (0::nat) =
     Some (Return True \<lparr>handler = Some (\<lambda>w. Returned (Suc w)), next_time = 20, interval = 10, count = - 1\<rparr> 1 1) \<and>
   manager_update (\<lambda>i. 35)
     \<lparr>ids = 1, timers = [(0, \<lparr>handler = Some (\<lambda>w. Returned (Suc w)), next_time = 10, interval = 10, count = - 1\<rparr>)],
      remove = []\<rparr> (0::nat) =
     Some (Done \<lparr>ids = 1, timers = [], remove = []\<rparr> 1 [(0, 1)]) \<and>
   (0::timer_id) \<notin> fst ` set (timers (\<lparr>ids = 1, timers = [], remove = []\<rparr> :: nat manager)) \<and>
   timeout (Some (\<lambda>w. Returned (Suc w))) 10 0 (manager_init :: nat manager) =
     Some (0, \<lparr>ids = 1, timers = [(0, \<lparr>handler = Some (\<lambda>w. Returned (Suc w)), next_time = 10, interval = 10, count = - 1\<rparr>)],
      remove = []\<rparr>)"
proof -
  let ?h = "\<lambda>w::nat. Returned (Suc w)"
  let ?t = "\<lparr>handler = Some ?h, next_time = 10, interval = 10, count = - 1\<rparr>"
  let ?m = "\<lparr>ids = 1, timers = [(0, ?t)], remove = []\<rparr>"
  let ?m' = "\<lparr>ids = 1, timers = [], remove = []\<rparr> :: nat manager"
  have ex: "execute ?t 0 = ExecOk (?t\<lparr>next_time := 20\<rparr>) 1"
    by (simp add: execute_def)
  have u: "timer_update 35 ?t 0 = Some (Return True (?t\<lparr>next_time := 20\<rparr>) 1 1)"
    by (simp add: timer_update_def ex)
  have p: "manager_update (\<lambda>i. 35) ?m 0 = Some (Done ?m' 1 [(0, 1)])"
    by (simp add: manager_update_def u erase_all_def AList.delete_eq)
  have g: "get_id_loop ([] :: (timer_id \<times> nat timer) list) 0 = Some (0, 1)"
    by (subst get_id_loop.simps) (simp add: invalid_timer_def)
  have r: "timeout (Some ?h) 10 0 (manager_init :: nat manager) = Some (0, ?m)"
    by (simp add: timeout_def register_def get_id_def manager_init_def g new_timer_def)
  from one_shot_fires_once_then_removed
    [of ?t ?h 35 0 1 0 ?m "\<lambda>i. 35" ?m' 1 "[(0, 1)]" 10 0 manager_init 0 ?m]
  show ?thesis using u p r by simp
qed

section \<open>Identifiers and registration\<close>

lemma get_id_loop_sound:
  assumes "get_id_loop ts c = Some r"
  shows "fst r \<noteq> invalid_timer \<and> map_of ts (fst r) = None \<and> snd r = fst r + 1"
proof (rule get_id_loop.raw_induct [where P = "\<lambda>ts c r.
    fst r \<noteq> invalid_timer \<and> map_of ts (fst r) = None \<and> snd r = fst r + 1", OF _ assms])
  fix gl :: "(timer_id \<times> 'a timer) list \<Rightarrow> timer_id \<Rightarrow> (timer_id \<times> timer_id) option"
    and ts c r
  assume IH: "\<And>ts c r. gl ts c = Some r \<Longrightarrow>
      fst r \<noteq> invalid_timer \<and> map_of ts (fst r) = None \<and> snd r = fst r + 1"
    and eq: "(if c = invalid_timer then gl ts (c + 1)
          else if map_of ts c = None then Some (c, c + 1) else gl ts (c + 1)) = Some r"
  show "fst r \<noteq> invalid_timer \<and> map_of ts (fst r) = None \<and> snd r = fst r + 1"
  proof (cases "c \<noteq> invalid_timer \<and> map_of ts c = None")
    case True
    then show ?thesis using eq by auto
  next
    case False
    then have "gl ts (c + 1) = Some r" using eq by (auto split: if_splits)
    then show ?thesis by (rule IH)
  qed
qed

lemma get_id_loop_finds:
  "c + of_nat k \<noteq> invalid_timer \<Longrightarrow> map_of ts (c + of_nat k) = None \<Longrightarrow>
   \<exists>j\<le>k. get_id_loop ts c = Some (c + of_nat j, c + of_nat j + 1) \<and>
     (\<forall>l<j. c + of_nat l = invalid_timer \<or> map_of ts (c + of_nat l) \<noteq> None)"
proof (induction k arbitrary: c)
  case 0
  then have "get_id_loop ts c = Some (c + of_nat 0, c + of_nat 0 + 1)"
    by (subst get_id_loop.simps) simp
  then show ?case by blast
next
  case (Suc k)
  show ?case
  proof (cases "c \<noteq> invalid_timer \<and> map_of ts c = None")
    case True
    then have "get_id_loop ts c = Some (c + of_nat 0, c + of_nat 0 + 1)"
      by (subst get_id_loop.simps) simp
    then show ?thesis by blast
  next
    case False
    then have step: "get_id_loop ts c = get_id_loop ts (c + 1)"
      by (subst get_id_loop.simps) auto
    have e: "c + 1 + of_nat n = c + of_nat (Suc n)" for n
      by (simp add: ac_simps)
    have a: "(c + 1) + of_nat k \<noteq> invalid_timer" "map_of ts ((c + 1) + of_nat k) = None"
      using Suc.prems unfolding e by simp_all
    from Suc.IH [OF a] obtain j where j: "j \<le> k"
      "get_id_loop ts (c + 1) = Some (c + 1 + of_nat j, c + 1 + of_nat j + 1)"
      "\<forall>l<j. c + 1 + of_nat l = invalid_timer \<or> map_of ts (c + 1 + of_nat l) \<noteq> None"
      by blast
    have "\<forall>l<Suc j. c + of_nat l = invalid_timer \<or> map_of ts (c + of_nat l) \<noteq> None"
    proof (intro allI impI)
      fix l assume "l < Suc j"
      show "c + of_nat l = invalid_timer \<or> map_of ts (c + of_nat l) \<noteq> None"
      proof (cases l)
        case 0
        then show ?thesis using False by auto
      next
        case (Suc l')
        then have "l' < j" using \<open>l < Suc j\<close> by simp
        with j(3) have "c + 1 + of_nat l' = invalid_timer \<or> map_of ts (c + 1 + of_nat l') \<noteq> None"
          by blast
        then show ?thesis unfolding e Suc by simp
      qed
    qed
    moreover have "get_id_loop ts c = Some (c + of_nat (Suc j), c + of_nat (Suc j) + 1)"
      using step j(2) unfolding e by simp
    moreover have "Suc j \<le> Suc k" using j(1) by simp
    ultimately show ?thesis by blast
  qed
qed

lemma free_id_exists:
  assumes "length ts < 2 ^ 64 - 1"
  shows "\<exists>i::timer_id. i \<noteq> invalid_timer \<and> map_of ts i = None"
proof -
  have "card (insert invalid_timer (fst ` set ts)) \<le> Suc (card (fst ` set ts))"
    by (simp add: card_insert_if)
  also have "card (fst ` set ts) \<le> length ts"
    by (metis card_image_le card_length le_trans List.finite_set)
  finally have "card (insert invalid_timer (fst ` set ts)) < 2 ^ 64"
    using assms by simp
  moreover have "card (UNIV :: timer_id set) = 2 ^ 64"
    by (simp add: card_word)
  ultimately have "insert invalid_timer (fst ` set ts) \<noteq> UNIV"
    by auto
  then obtain i where "i \<noteq> invalid_timer" "i \<notin> fst ` set ts" by auto
  then show ?thesis by (auto simp: map_of_eq_None_iff)
qed

lemma get_id_sound:
  assumes "get_id m = Some (i, m')"
  shows "i \<noteq> invalid_timer \<and> i \<notin> fst ` set (timers m) \<and> m' = m\<lparr>ids := i + 1\<rparr>"
proof -
  from assms obtain c where g: "get_id_loop (timers m) (ids m) = Some (i, c)"
    and m': "m' = m\<lparr>ids := c\<rparr>"
    by (auto simp: get_id_def split: option.splits)
  from get_id_loop_sound [OF g] show ?thesis
    by (simp add: m' map_of_eq_None_iff)
qed

lemma get_id_total:
  assumes "length (timers m) < 2 ^ 64 - 1"
  shows "\<exists>i k. get_id m = Some (i, m\<lparr>ids := i + 1\<rparr>) \<and> i = ids m + of_nat k \<and> k < 2 ^ 64 \<and>
           (\<forall>l<k. ids m + of_nat l = invalid_timer \<or> ids m + of_nat l \<in> fst ` set (timers m))"
proof -
  from free_id_exists [OF assms] obtain i0 :: timer_id
    where i0: "i0 \<noteq> invalid_timer" "map_of (timers m) i0 = None" by blast
  define k0 where "k0 = unat (i0 - ids m)"
  have e: "ids m + of_nat k0 = i0" by (simp add: k0_def)
  have "k0 < 2 ^ 64" using unsigned_less [of "i0 - ids m", where 'a = nat] by (simp add: k0_def)
  from get_id_loop_finds [of "ids m" k0 "timers m"] i0 e
  obtain j where j: "j \<le> k0"
    "get_id_loop (timers m) (ids m) = Some (ids m + of_nat j, ids m + of_nat j + 1)"
    "\<forall>l<j. ids m + of_nat l = invalid_timer \<or> map_of (timers m) (ids m + of_nat l) \<noteq> None"
    by auto
  have "get_id m = Some (ids m + of_nat j, m\<lparr>ids := ids m + of_nat j + 1\<rparr>)"
    by (simp add: get_id_def j(2))
  moreover have "j < 2 ^ 64" using j(1) \<open>k0 < 2 ^ 64\<close> by simp
  moreover have "\<forall>l<j. ids m + of_nat l = invalid_timer \<or> ids m + of_nat l \<in> fst ` set (timers m)"
    using j(3) by (simp add: map_of_eq_None_iff)
  ultimately show ?thesis by blast
qed

lemma update_fresh:
  "i \<notin> fst ` set al \<Longrightarrow> AList.update i t al = al @ [(i, t)]"
  by (induction al) auto

lemma register_sound:
  assumes "register t m = Some (i, m')"
  shows "i \<noteq> invalid_timer \<and> i \<notin> fst ` set (timers m) \<and>
         m' = m\<lparr>ids := i + 1, timers := timers m @ [(i, t)]\<rparr>"
proof -
  from assms obtain m1 where g: "get_id m = Some (i, m1)"
    and m': "m' = m1\<lparr>timers := AList.update i t (timers m1)\<rparr>"
    by (auto simp: register_def split: option.splits)
  from get_id_sound [OF g] show ?thesis
    by (simp add: m' update_fresh)
qed

lemma register_total:
  assumes "length (timers m) < 2 ^ 64 - 1"
  shows "\<exists>i. i \<noteq> invalid_timer \<and> i \<notin> fst ` set (timers m) \<and>
           register t m = Some (i, m\<lparr>ids := i + 1, timers := timers m @ [(i, t)]\<rparr>)"
proof -
  from get_id_total [OF assms] obtain i where g: "get_id m = Some (i, m\<lparr>ids := i + 1\<rparr>)"
    by blast
  then obtain m' where r: "register t m = Some (i, m')"
    by (simp add: register_def)
  from register_sound [OF r] r show ?thesis by blast
qed

text \<open>
  C4. \<open>repeat\<close> with a count of zero or less returns the invalid identifier and the
  manager as it was; with the count one it is \<open>timeout\<close> with the same handler and
  duration, which stores a timer whose \<open>count\<close> is \<open>-1\<close>; with a count of two or more it
  stores, under a fresh identifier, a timer whose \<open>count\<close> is the count plus one.
\<close>

theorem repeat_by_count:
  "(c \<le> 0 \<longrightarrow> repeat h d c now m = Some (invalid_timer, m)) \<and>
   repeat h d 1 now m = timeout h d now m \<and>
   (length (timers m) < 2 ^ 64 - 1 \<longrightarrow>
      (\<exists>i. i \<noteq> invalid_timer \<and> i \<notin> fst ` set (timers m) \<and>
         repeat h d 1 now m =
           Some (i, m\<lparr>ids := i + 1, timers := timers m @
             [(i, \<lparr>handler = h, next_time = now + d, interval = d, count = - 1\<rparr>)]\<rparr>))) \<and>
   (2 \<le> c \<and> c < INT_MAX \<and> length (timers m) < 2 ^ 64 - 1 \<longrightarrow>
      (\<exists>i. i \<noteq> invalid_timer \<and> i \<notin> fst ` set (timers m) \<and>
         repeat h d c now m =
           Some (i, m\<lparr>ids := i + 1, timers := timers m @
             [(i, \<lparr>handler = h, next_time = now + d, interval = d, count = c + 1\<rparr>)]\<rparr>))) \<and>
   (2 \<le> c \<and> c < INT_MAX \<and> repeat h d c now m = Some (j, m') \<longrightarrow>
      map_of (timers m') j =
        Some \<lparr>handler = h, next_time = now + d, interval = d, count = c + 1\<rparr>)"
proof (intro conjI impI)
  assume "c \<le> 0"
  then show "repeat h d c now m = Some (invalid_timer, m)" by (simp add: repeat_def)
next
  show "repeat h d 1 now m = timeout h d now m" by (simp add: repeat_def)
next
  assume "length (timers m) < 2 ^ 64 - 1"
  from register_total [OF this, of "new_timer h d (- 1) now"]
  show "\<exists>i. i \<noteq> invalid_timer \<and> i \<notin> fst ` set (timers m) \<and>
         repeat h d 1 now m =
           Some (i, m\<lparr>ids := i + 1, timers := timers m @
             [(i, \<lparr>handler = h, next_time = now + d, interval = d, count = - 1\<rparr>)]\<rparr>)"
    by (simp add: repeat_def timeout_def new_timer_def)
next
  assume a: "2 \<le> c \<and> c < INT_MAX \<and> length (timers m) < 2 ^ 64 - 1"
  then have "length (timers m) < 2 ^ 64 - 1" by simp
  from register_total [OF this, of "new_timer h d (c + 1) now"] a
  show "\<exists>i. i \<noteq> invalid_timer \<and> i \<notin> fst ` set (timers m) \<and>
         repeat h d c now m =
           Some (i, m\<lparr>ids := i + 1, timers := timers m @
             [(i, \<lparr>handler = h, next_time = now + d, interval = d, count = c + 1\<rparr>)]\<rparr>)"
    by (simp add: repeat_def new_timer_def)
next
  assume a: "2 \<le> c \<and> c < INT_MAX \<and> repeat h d c now m = Some (j, m')"
  then have "register (new_timer h d (c + 1) now) m = Some (j, m')"
    by (auto simp: repeat_def split: if_splits)
  then show "map_of (timers m') j =
      Some \<lparr>handler = h, next_time = now + d, interval = d, count = c + 1\<rparr>"
    by (simp add: register_stores new_timer_def)
qed

theorem repeat_by_count_witness:
  "repeat (Some (\<lambda>w. Returned (Suc w))) 3 (- 3) 0 (manager_init :: nat manager) =
     Some (invalid_timer, manager_init) \<and>
   repeat (Some (\<lambda>w. Returned (Suc w))) 3 1 0 (manager_init :: nat manager) =
     timeout (Some (\<lambda>w. Returned (Suc w))) 3 0 manager_init \<and>
   (2::int) \<le> 5 \<and> 5 < INT_MAX \<and> length (timers (manager_init :: nat manager)) < 2 ^ 64 - 1 \<and>
   repeat (Some (\<lambda>w. Returned (Suc w))) 3 5 0 (manager_init :: nat manager) =
     Some (0, \<lparr>ids = 1,
       timers = [(0, \<lparr>handler = Some (\<lambda>w. Returned (Suc w)), next_time = 3, interval = 3, count = 6\<rparr>)],
       remove = []\<rparr>) \<and>
   map_of (timers (\<lparr>ids = 1,
       timers = [(0, \<lparr>handler = Some (\<lambda>w. Returned (Suc w)), next_time = 3, interval = 3, count = 6\<rparr>)],
       remove = []\<rparr> :: nat manager)) 0 =
     Some \<lparr>handler = Some (\<lambda>w. Returned (Suc w)), next_time = 3, interval = 3, count = 6\<rparr>"
proof -
  let ?h = "Some (\<lambda>w::nat. Returned (Suc w))"
  let ?m' = "\<lparr>ids = 1,
       timers = [(0, \<lparr>handler = ?h, next_time = 3, interval = 3, count = 6\<rparr>)],
       remove = []\<rparr> :: nat manager"
  have g: "get_id_loop ([] :: (timer_id \<times> nat timer) list) 0 = Some (0, 1)"
    by (subst get_id_loop.simps) (simp add: invalid_timer_def)
  have r: "repeat ?h 3 5 0 (manager_init :: nat manager) = Some (0, ?m')"
    by (simp add: repeat_def register_def get_id_def manager_init_def g new_timer_def)
  have b: "(2::int) \<le> 5" "5 < INT_MAX" "length (timers (manager_init :: nat manager)) < 2 ^ 64 - 1"
    by (simp_all add: INT_MAX_def manager_init_def)
  have p1: "repeat ?h 3 (- 3) 0 (manager_init :: nat manager) = Some (invalid_timer, manager_init)"
    using repeat_by_count [of "- 3" ?h 3 0 manager_init, THEN conjunct1] by simp
  have p2: "repeat ?h 3 1 0 (manager_init :: nat manager) = timeout ?h 3 0 manager_init"
    by (rule repeat_by_count [THEN conjunct2, THEN conjunct1])
  have p5: "map_of (timers ?m') 0 = Some \<lparr>handler = ?h, next_time = 3, interval = 3, count = 6\<rparr>"
    using repeat_by_count [of 5 ?h 3 0 manager_init 0 ?m',
        THEN conjunct2, THEN conjunct2, THEN conjunct2, THEN conjunct2] r b
    by simp
  from p1 p2 b r p5 show ?thesis by (intro conjI)
qed

lemma keys_ok_init: "keys_ok manager_init"
  by (simp add: keys_ok_def manager_init_def)

lemma keys_ok_clear: "keys_ok (clear m)"
  by (simp add: keys_ok_def clear_def)

lemma keys_ok_cancel: "keys_ok m \<Longrightarrow> keys_ok (cancel j m)"
  by (simp add: keys_ok_def cancel_def)

lemma keys_ok_register:
  assumes "keys_ok m" and "register t m = Some (i, m')"
  shows "keys_ok m' \<and> i \<notin> fst ` set (timers m) \<and>
         fst ` set (timers m') = insert i (fst ` set (timers m))"
  using register_sound [OF assms(2)] assms(1) by (auto simp: keys_ok_def)

lemma keys_ok_repeat:
  assumes "keys_ok m" and "repeat h d c now m = Some (i, m')"
  shows "keys_ok m'"
proof (cases "c \<le> 0")
  case True
  then show ?thesis using assms by (simp add: repeat_def)
next
  case False
  then obtain t where "register t m = Some (i, m')"
    using assms(2) by (auto simp: repeat_def timeout_def split: if_splits)
  from keys_ok_register [OF assms(1) this] show ?thesis by simp
qed

lemma keys_ok_update_Done:
  assumes "keys_ok m" and "manager_update clk m w = Some (Done m' w' lg)"
  shows "keys_ok m' \<and> fst ` set (timers m') \<subseteq> fst ` set (timers m)"
proof -
  from assms(2) obtain ts rs where
    v: "visit clk (timers m) w = Some (Visited ts rs w' lg)"
    and m': "m' = m\<lparr>timers := erase_all (remove m @ rs) ts, remove := []\<rparr>"
    by (auto simp: manager_update_def split: option.splits visited.splits)
  from visit_Visited_keys [OF v] have k: "map fst ts = map fst (timers m)" by simp
  then have "distinct (map fst ts)" and "invalid_timer \<notin> fst ` set ts"
    and s: "fst ` set ts = fst ` set (timers m)"
    using assms(1) by (auto simp: keys_ok_def simp flip: set_map)
  then show ?thesis
    by (auto simp: keys_ok_def m' erase_all_filter distinct_map_filter)
qed

lemma keys_ok_update_Thrown:
  assumes "keys_ok m" and "manager_update clk m w = Some (Thrown m' w' lg)"
  shows "keys_ok m' \<and> map fst (timers m') = map fst (timers m)"
proof -
  from assms(2) obtain ts rs where
    v: "visit clk (timers m) w = Some (Escaped ts rs w' lg)"
    and m': "m' = m\<lparr>timers := ts, remove := remove m @ rs\<rparr>"
    by (auto simp: manager_update_def split: option.splits visited.splits)
  from visit_Escaped_keys [OF v] have k: "map fst ts = map fst (timers m)" by simp
  then have "distinct (map fst ts)" and "invalid_timer \<notin> fst ` set ts"
    using assms(1) by (auto simp: keys_ok_def simp flip: set_map)
  then show ?thesis using k by (simp add: keys_ok_def m')
qed

lemma counter_advances:
  "unat (c :: timer_id) + Suc k < 2 ^ 64 \<Longrightarrow> unat (c + of_nat k + 1) = unat c + Suc k"
proof -
  assume a: "unat c + Suc k < 2 ^ 64"
  have "c + of_nat k + 1 = c + of_nat (Suc k)" by (simp add: ac_simps)
  also have "unat \<dots> = (unat c + Suc k mod 2 ^ 64) mod 2 ^ 64"
    by (simp only: unat_word_ariths unat_of_nat len_of_numeral_defs) simp
  also have "\<dots> = unat c + Suc k" using a by simp
  finally show ?thesis .
qed

text \<open>
  C7. Identifier allocation. An identifier returned by \<open>get_id\<close> is not the invalid
  identifier and is not a key of \<open>timers\<close>; \<open>get_id\<close> returns whenever some valid
  identifier is free, the identifier is the counter plus the number \<open>k\<close> of candidates it
  skipped (each the sentinel or in use), and the counter becomes the identifier plus one:
  it grows by \<open>k + 1\<close> unless that wraps around. Hence the keys of \<open>timers\<close> stay
  pairwise distinct and different from the sentinel (\<open>keys_ok\<close>) under every operation of
  the manager, and a registration never takes an identifier that a stored timer holds.
\<close>

theorem identifier_allocation:
  "(get_id m = Some (i, m') \<longrightarrow>
      i \<noteq> invalid_timer \<and> i \<notin> fst ` set (timers m) \<and> m' = m\<lparr>ids := i + 1\<rparr>) \<and>
   (length (timers m) < 2 ^ 64 - 1 \<longrightarrow>
      (\<exists>i k. get_id m = Some (i, m\<lparr>ids := i + 1\<rparr>) \<and> i = ids m + of_nat k \<and> k < 2 ^ 64 \<and>
         (\<forall>l<k. ids m + of_nat l = invalid_timer \<or> ids m + of_nat l \<in> fst ` set (timers m)) \<and>
         (unat (ids m) + Suc k < 2 ^ 64 \<longrightarrow> unat (i + 1) = unat (ids m) + Suc k))) \<and>
   keys_ok (manager_init :: 'w manager) \<and> keys_ok (clear m) \<and>
   (keys_ok m \<longrightarrow>
      keys_ok (cancel j m) \<and>
      (timeout h d now m = Some (ia, ma) \<longrightarrow>
         keys_ok ma \<and> ia \<notin> fst ` set (timers m) \<and>
         fst ` set (timers ma) = insert ia (fst ` set (timers m))) \<and>
      (manager_interval h d now m = Some (ib, mb) \<longrightarrow>
         keys_ok mb \<and> ib \<notin> fst ` set (timers m) \<and>
         fst ` set (timers mb) = insert ib (fst ` set (timers m))) \<and>
      (repeat h d c now m = Some (ic, mc) \<longrightarrow>
         keys_ok mc \<and>
         (0 < c \<longrightarrow> ic \<notin> fst ` set (timers m) \<and>
            fst ` set (timers mc) = insert ic (fst ` set (timers m)))) \<and>
      (manager_update clk m w = Some (Done md wd lgd) \<longrightarrow>
         keys_ok md \<and> fst ` set (timers md) \<subseteq> fst ` set (timers m)) \<and>
      (manager_update clk m w = Some (Thrown me we lge) \<longrightarrow>
         keys_ok me \<and> map fst (timers me) = map fst (timers m)))"
proof (intro conjI impI)
  assume "get_id m = Some (i, m')"
  from get_id_sound [OF this]
  show "i \<noteq> invalid_timer" and "i \<notin> fst ` set (timers m)" and "m' = m\<lparr>ids := i + 1\<rparr>"
    by simp_all
next
  assume "length (timers m) < 2 ^ 64 - 1"
  from get_id_total [OF this] obtain i k where
    g: "get_id m = Some (i, m\<lparr>ids := i + 1\<rparr>)" "i = ids m + of_nat k" "k < 2 ^ 64"
    "\<forall>l<k. ids m + of_nat l = invalid_timer \<or> ids m + of_nat l \<in> fst ` set (timers m)"
    by blast
  have "unat (ids m) + Suc k < 2 ^ 64 \<longrightarrow> unat (i + 1) = unat (ids m) + Suc k"
    unfolding g(2) by (rule impI) (rule counter_advances)
  with g have "get_id m = Some (i, m\<lparr>ids := i + 1\<rparr>) \<and> i = ids m + of_nat k \<and> k < 2 ^ 64 \<and>
       (\<forall>l<k. ids m + of_nat l = invalid_timer \<or> ids m + of_nat l \<in> fst ` set (timers m)) \<and>
       (unat (ids m) + Suc k < 2 ^ 64 \<longrightarrow> unat (i + 1) = unat (ids m) + Suc k)"
    by (intro conjI)
  then show "\<exists>i k. get_id m = Some (i, m\<lparr>ids := i + 1\<rparr>) \<and> i = ids m + of_nat k \<and> k < 2 ^ 64 \<and>
       (\<forall>l<k. ids m + of_nat l = invalid_timer \<or> ids m + of_nat l \<in> fst ` set (timers m)) \<and>
       (unat (ids m) + Suc k < 2 ^ 64 \<longrightarrow> unat (i + 1) = unat (ids m) + Suc k)"
    by (intro exI)
next
  show "keys_ok (manager_init :: 'w manager)" by (rule keys_ok_init)
next
  show "keys_ok (clear m)" by (rule keys_ok_clear)
next
  assume "keys_ok m"
  then show "keys_ok (cancel j m)" by (rule keys_ok_cancel)
next
  assume k: "keys_ok m" and "timeout h d now m = Some (ia, ma)"
  then have "register (new_timer h d (- 1) now) m = Some (ia, ma)" by (simp add: timeout_def)
  from keys_ok_register [OF k this]
  show "keys_ok ma" and "ia \<notin> fst ` set (timers m)"
    and "fst ` set (timers ma) = insert ia (fst ` set (timers m))"
    by simp_all
next
  assume k: "keys_ok m" and "manager_interval h d now m = Some (ib, mb)"
  then have "register (new_timer h d 0 now) m = Some (ib, mb)" by (simp add: manager_interval_def)
  from keys_ok_register [OF k this]
  show "keys_ok mb" and "ib \<notin> fst ` set (timers m)"
    and "fst ` set (timers mb) = insert ib (fst ` set (timers m))"
    by simp_all
next
  assume k: "keys_ok m" and r: "repeat h d c now m = Some (ic, mc)"
  from keys_ok_repeat [OF k r] show "keys_ok mc" .
  assume "0 < c"
  then obtain t where "register t m = Some (ic, mc)"
    using r by (auto simp: repeat_def timeout_def split: if_splits)
  from keys_ok_register [OF k this]
  show "ic \<notin> fst ` set (timers m)"
    and "fst ` set (timers mc) = insert ic (fst ` set (timers m))"
    by simp_all
next
  assume k: "keys_ok m" and u: "manager_update clk m w = Some (Done md wd lgd)"
  from keys_ok_update_Done [OF k u]
  show "keys_ok md" and "fst ` set (timers md) \<subseteq> fst ` set (timers m)" by simp_all
next
  assume k: "keys_ok m" and u: "manager_update clk m w = Some (Thrown me we lge)"
  from keys_ok_update_Thrown [OF k u]
  show "keys_ok me" and "map fst (timers me) = map fst (timers m)" by simp_all
qed

theorem identifier_allocation_witness:
  "get_id \<lparr>ids = 0,
      timers = [(0, \<lparr>handler = Some (\<lambda>w. Returned (Suc w)), next_time = 100, interval = 100, count = 0\<rparr>),
                (1, \<lparr>handler = Some (\<lambda>w. Returned (Suc w)), next_time = 100, interval = 100, count = 0\<rparr>)],
      remove = [1]\<rparr> =
     Some (2, \<lparr>ids = 3,
      timers = [(0, \<lparr>handler = Some (\<lambda>w::nat. Returned (Suc w)), next_time = 100, interval = 100, count = 0\<rparr>),
                (1, \<lparr>handler = Some (\<lambda>w. Returned (Suc w)), next_time = 100, interval = 100, count = 0\<rparr>)],
      remove = [1]\<rparr>) \<and>
   (2 :: timer_id) \<noteq> invalid_timer \<and>
   keys_ok \<lparr>ids = 0,
      timers = [(0, \<lparr>handler = Some (\<lambda>w::nat. Returned (Suc w)), next_time = 100, interval = 100, count = 0\<rparr>),
                (1, \<lparr>handler = Some (\<lambda>w. Returned (Suc w)), next_time = 100, interval = 100, count = 0\<rparr>)],
      remove = [1]\<rparr> \<and>
   manager_update (\<lambda>i. 0) \<lparr>ids = 0,
      timers = [(0, \<lparr>handler = Some (\<lambda>w. Returned (Suc w)), next_time = 100, interval = 100, count = 0\<rparr>),
                (1, \<lparr>handler = Some (\<lambda>w. Returned (Suc w)), next_time = 100, interval = 100, count = 0\<rparr>)],
      remove = [1]\<rparr> (0::nat) =
     Some (Done \<lparr>ids = 0,
      timers = [(0, \<lparr>handler = Some (\<lambda>w. Returned (Suc w)), next_time = 100, interval = 100, count = 0\<rparr>)],
      remove = []\<rparr> 0 [(0, 0), (1, 0)]) \<and>
   keys_ok \<lparr>ids = 0,
      timers = [(0, \<lparr>handler = Some (\<lambda>w::nat. Returned (Suc w)), next_time = 100, interval = 100, count = 0\<rparr>)],
      remove = []\<rparr>"
proof -
  let ?T = "\<lparr>handler = Some (\<lambda>w::nat. Returned (Suc w)), next_time = 100, interval = 100, count = 0\<rparr>"
  let ?M = "\<lparr>ids = 0, timers = [(0, ?T), (1, ?T)], remove = [1]\<rparr>"
  let ?D = "\<lparr>ids = 0, timers = [(0, ?T)], remove = []\<rparr>"
  have l0: "get_id_loop [(0, ?T), (1, ?T)] 0 = get_id_loop [(0, ?T), (1, ?T)] 1"
    by (subst get_id_loop.simps) (simp add: invalid_timer_def)
  have l1: "get_id_loop [(0, ?T), (1, ?T)] 1 = get_id_loop [(0, ?T), (1, ?T)] 2"
    by (subst get_id_loop.simps) (simp add: invalid_timer_def)
  have l2: "get_id_loop [(0, ?T), (1, ?T)] 2 = Some (2, 3)"
    by (subst get_id_loop.simps) (simp add: invalid_timer_def)
  have g: "get_id ?M = Some (2, ?M\<lparr>ids := 3\<rparr>)"
    by (simp add: get_id_def l0 l1 l2)
  have k: "keys_ok ?M"
    by (simp add: keys_ok_def invalid_timer_def)
  have u: "timer_update 0 ?T w = Some (Return False ?T w 0)" for w
    by (simp add: timer_update_def)
  have p: "manager_update (\<lambda>i. 0) ?M 0 = Some (Done ?D 0 [(0, 0), (1, 0)])"
    by (simp add: manager_update_def u erase_all_def AList.delete_eq)
  note T = identifier_allocation [where m = ?M and i = 2 and m' = "?M\<lparr>ids := 3\<rparr>"
      and clk = "\<lambda>i. 0" and w = 0 and md = ?D and wd = 0 and lgd = "[(0, 0), (1, 0)]"]
  from T g have a: "(2 :: timer_id) \<noteq> invalid_timer" by blast
  from T k p have b: "keys_ok ?D" by blast
  from g a k p b show ?thesis by simp
qed

section \<open>Handlers that raise\<close>

lemma update_first_call_raises:
  assumes "handler t = Some h" and "h w = Raised w'" and "next_time t \<le> now" and "count t \<noteq> 1"
  shows "timer_update now t w = Some (Throw t w' 1)"
proof -
  have ex: "execute t w = ExecThrow t w'" using assms(1,2) by (rule execute_raised)
  consider "count t < 0" | "count t = 0" | "1 < count t" using assms(4) by linarith
  then show ?thesis
  proof cases
    case 1
    then show ?thesis using assms(1,3) ex by (simp add: timer_update_def)
  next
    case 2
    have "catch_up now t w 0 = Some (Throw t w' (Suc 0))"
      using assms(3) ex by (subst catch_up.simps) simp
    then show ?thesis using 2 assms(1,3) by (simp add: timer_update_def)
  next
    case 3
    have "count_down now t w 0 = Some (Throw t w' (Suc 0))"
      using assms(3) ex by (subst count_down.simps) simp
    then show ?thesis using 3 assms(1,3) by (simp add: timer_update_def)
  qed
qed

text \<open>
  C8, as the code has it. When the handler raises during an update, the exception leaves
  the update at once: of the \<open>k\<close> calls of this update only the \<open>k - 1\<close> that returned have
  added an interval to \<open>next_time\<close> and, for a bounded timer, taken one from \<open>count\<close>; the
  call that raised has changed neither. An update that returns has advanced once per call.
  When the first call of an update raises, the timer is exactly as it was.
\<close>

theorem raising_handler_skips_advance:
  "(timer_update now t w = Some (Throw t' w' k) \<longrightarrow>
      0 < k \<and> handler t' = handler t \<and> interval t' = interval t \<and>
      next_time t' = next_time t + int (k - 1) * interval t \<and>
      count t' = (if 1 < count t then count t - int (k - 1) else count t)) \<and>
   (timer_update now t w = Some (Return fin t' w' k) \<longrightarrow>
      next_time t' = next_time t + int k * interval t \<and>
      count t' = (if 1 < count t then count t - int k else count t)) \<and>
   (handler t = Some h \<and> h w = Raised w'' \<and> next_time t \<le> now \<and> count t \<noteq> 1 \<longrightarrow>
      timer_update now t w = Some (Throw t w'' 1))"
proof (intro conjI impI)
  assume "timer_update now t w = Some (Throw t' w' k)"
  from update_post [OF this]
  show "0 < k" and "handler t' = handler t" and "interval t' = interval t"
    and "next_time t' = next_time t + int (k - 1) * interval t"
    and "count t' = (if 1 < count t then count t - int (k - 1) else count t)"
    by (simp_all add: update_post_def)
next
  assume "timer_update now t w = Some (Return fin t' w' k)"
  from update_post [OF this]
  show "next_time t' = next_time t + int k * interval t"
    and "count t' = (if 1 < count t then count t - int k else count t)"
    by (simp_all add: update_post_def)
next
  assume "handler t = Some h \<and> h w = Raised w'' \<and> next_time t \<le> now \<and> count t \<noteq> 1"
  then show "timer_update now t w = Some (Throw t w'' 1)"
    by (simp add: update_first_call_raises)
qed

theorem raising_handler_skips_advance_witness:
  "timer_update 0
     \<lparr>handler = Some (\<lambda>w. if w then Raised w else Returned w), next_time = 0, interval = 5, count = 3\<rparr>
     True =
   Some (Throw
     \<lparr>handler = Some (\<lambda>w. if w then Raised w else Returned w), next_time = 0, interval = 5, count = 3\<rparr>
     True 1) \<and>
   timer_update 20
     \<lparr>handler = Some (\<lambda>w. if w = Suc 0 then Raised w else Returned (Suc w)), next_time = 0, interval = 5, count = 0\<rparr>
     0 =
   Some (Throw
     \<lparr>handler = Some (\<lambda>w. if w = Suc 0 then Raised w else Returned (Suc w)), next_time = 5, interval = 5, count = 0\<rparr>
     (Suc 0) 2) \<and>
   next_time \<lparr>handler = Some (\<lambda>w. if w = Suc 0 then Raised w else Returned (Suc w)),
       next_time = 5, interval = 5, count = 0\<rparr> =
     next_time \<lparr>handler = Some (\<lambda>w. if w = Suc 0 then Raised w else Returned (Suc w)),
       next_time = 0, interval = 5, count = 0\<rparr> + int (2 - 1) *
     interval \<lparr>handler = Some (\<lambda>w. if w = Suc 0 then Raised w else Returned (Suc w)),
       next_time = 0, interval = 5, count = 0\<rparr>"
proof -
  let ?t = "\<lparr>handler = Some (\<lambda>w. if w then Raised w else Returned w),
    next_time = 0, interval = 5, count = 3\<rparr>"
  let ?g = "\<lambda>w. if w = Suc 0 then Raised w else Returned (Suc w)"
  let ?u = "\<lparr>handler = Some ?g, next_time = 0, interval = 5, count = 0\<rparr>"
  let ?u1 = "\<lparr>handler = Some ?g, next_time = 5, interval = 5, count = 0\<rparr>"
  from raising_handler_skips_advance
    [where t = ?t and h = "\<lambda>w. if w then Raised w else Returned w" and w = True and w'' = True
      and now = 0, THEN conjunct2, THEN conjunct2]
  have a: "timer_update 0 ?t True = Some (Throw ?t True 1)" by simp
  have e0: "execute ?u 0 = ExecOk ?u1 (Suc 0)" by (simp add: execute_def)
  have e1: "execute ?u1 (Suc 0) = ExecThrow ?u1 (Suc 0)" by (simp add: execute_def)
  have c1: "catch_up 20 ?u1 (Suc 0) (Suc 0) = Some (Throw ?u1 (Suc 0) 2)"
    by (subst catch_up.simps) (simp add: e1)
  have c0: "catch_up 20 ?u 0 0 = Some (Throw ?u1 (Suc 0) 2)"
    by (subst catch_up.simps) (simp add: e0 c1)
  have b: "timer_update 20 ?u 0 = Some (Throw ?u1 (Suc 0) 2)"
    by (simp add: timer_update_def c0)
  from raising_handler_skips_advance
    [where t = ?u and w = 0 and now = 20 and t' = ?u1 and w' = "Suc 0" and k = 2, THEN conjunct1] b
  have c: "next_time ?u1 = next_time ?u + int (2 - 1) * interval ?u" by blast
  from a b c show ?thesis by (intro conjI)
qed

theorem raising_handler_counterexample:
  "timer_update 0
     \<lparr>handler = Some (\<lambda>w. if w then Raised w else Returned w), next_time = 0, interval = 5, count = 3\<rparr>
     True =
   Some (Throw
     \<lparr>handler = Some (\<lambda>w. if w then Raised w else Returned w), next_time = 0, interval = 5, count = 3\<rparr>
     True 1) \<and>
   timer_update 0
     \<lparr>handler = Some (\<lambda>w. if w then Raised w else Returned w), next_time = 0, interval = 5, count = 3\<rparr>
     False =
   Some (Return False
     \<lparr>handler = Some (\<lambda>w. if w then Raised w else Returned w), next_time = 5, interval = 5, count = 2\<rparr>
     False 1) \<and>
   map_option scheduling_state (timer_update 0
     \<lparr>handler = Some (\<lambda>w. if w then Raised w else Returned w), next_time = 0, interval = 5, count = 3\<rparr>
     True) \<noteq>
   map_option scheduling_state (timer_update 0
     \<lparr>handler = Some (\<lambda>w. if w then Raised w else Returned w), next_time = 0, interval = 5, count = 3\<rparr>
     False)"
proof -
  let ?h = "\<lambda>w. if w then Raised w else Returned w"
  let ?t = "\<lparr>handler = Some ?h, next_time = 0, interval = 5, count = 3\<rparr>"
  let ?t1 = "\<lparr>handler = Some ?h, next_time = 5, interval = 5, count = 3\<rparr>"
  let ?t2 = "\<lparr>handler = Some ?h, next_time = 5, interval = 5, count = 2\<rparr>"
  have e1: "execute ?t True = ExecThrow ?t True" by (simp add: execute_def)
  have e2: "execute ?t False = ExecOk ?t1 False" by (simp add: execute_def)
  have c1: "count_down 0 ?t True 0 = Some (Throw ?t True 1)"
    by (subst count_down.simps) (simp add: e1)
  have c3: "count_down 0 ?t2 False (Suc 0) = Some (Return False ?t2 False (Suc 0))"
    by (subst count_down.simps) simp
  have c2: "count_down 0 ?t False 0 = Some (Return False ?t2 False 1)"
    by (subst count_down.simps) (simp add: e2 c3)
  have u1: "timer_update 0 ?t True = Some (Throw ?t True 1)"
    by (simp add: timer_update_def c1)
  have u2: "timer_update 0 ?t False = Some (Return False ?t2 False 1)"
    by (simp add: timer_update_def c2)
  show ?thesis unfolding u1 u2 by (simp add: scheduling_state_def)
qed

section \<open>Two updates at one clock reading\<close>

lemma update_Return_False:
  assumes "timer_update now t w = Some (Return False t' w' k)"
  shows "handler t' \<noteq> None \<and> now < next_time t'"
proof -
  from update_post [OF assms]
  have "False \<or> handler t' \<noteq> None \<and> now < next_time t'"
    unfolding update_post_def tick.case by (elim conjE)
  then show ?thesis by blast
qed

lemma update_twice_idle:
  assumes "timer_update now t w = Some (Return False t' w' k)"
  shows "timer_update now t' w2 = Some (Return False t' w2 0)"
  using update_Return_False [OF assms] by (simp add: update_idle)

lemma visit_idle:
  "(\<forall>p\<in>set ts. handler (snd p) \<noteq> None \<and> clk (fst p) < next_time (snd p)) \<Longrightarrow>
   visit clk ts w = Some (Visited ts [] w (map (\<lambda>p. (fst p, 0)) ts))"
proof (induction ts)
  case Nil
  then show ?case by simp
next
  case (Cons p ts)
  obtain i t where p: "p = (i, t)" by (cases p)
  have "timer_update (clk i) t w = Some (Return False t w 0)"
    using Cons.prems by (simp add: p update_idle)
  moreover have "visit clk ts w = Some (Visited ts [] w (map (\<lambda>p. (fst p, 0)) ts))"
    using Cons by simp
  ultimately show ?case by (simp add: p)
qed

lemma visit_survivors:
  "visit clk ts w = Some (Visited ts' rs w' lg) \<Longrightarrow> (i, t') \<in> set ts' \<Longrightarrow> i \<notin> set rs \<Longrightarrow>
   handler t' \<noteq> None \<and> clk i < next_time t'"
proof (induction ts arbitrary: w ts' rs w' lg)
  case Nil
  then show ?case by simp
next
  case (Cons p ts)
  obtain j u where p: "p = (j, u)" by (cases p)
  from Cons.prems(1) obtain fin t1 w1 k where
    u: "timer_update (clk j) u w = Some (Return fin t1 w1 k)"
    by (auto simp: p split: option.splits tick.splits)
  from Cons.prems(1) u obtain ts1 rs1 lg1 where
    v: "visit clk ts w1 = Some (Visited ts1 rs1 w' lg1)"
    and r: "ts' = (j, t1) # ts1" "rs = (if fin then [j] else []) @ rs1" "lg = (j, k) # lg1"
    by (auto simp: p split: option.splits visited.splits)
  show ?case
  proof (cases "(i, t') = (j, t1)")
    case True
    then have "\<not> fin" using Cons.prems(3) r(2) by auto
    with update_Return_False [of "clk j" u w t1 w1 k] u True show ?thesis by simp
  next
    case False
    then have "(i, t') \<in> set ts1" using Cons.prems(2) r(1) by auto
    moreover have "i \<notin> set rs1" using Cons.prems(3) r(2) by auto
    ultimately show ?thesis using Cons.IH [OF v] by blast
  qed
qed

lemma total_calls_idle: "total_calls (map (\<lambda>p. (fst p, 0)) ts) = 0"
  by (induction ts) (simp_all add: total_calls_def)

lemma manager_update_twice:
  assumes "manager_update clk m w = Some (Done m' w' lg)"
  shows "manager_update clk m' w2 = Some (Done m' w2 (map (\<lambda>p. (fst p, 0)) (timers m')))"
proof -
  from assms obtain ts rs where
    v: "visit clk (timers m) w = Some (Visited ts rs w' lg)"
    and m': "m' = m\<lparr>timers := erase_all (remove m @ rs) ts, remove := []\<rparr>"
    by (auto simp: manager_update_def split: option.splits visited.splits)
  have "\<forall>p\<in>set (timers m'). handler (snd p) \<noteq> None \<and> clk (fst p) < next_time (snd p)"
  proof
    fix p assume "p \<in> set (timers m')"
    then have "p \<in> set ts" and "fst p \<notin> set rs"
      by (simp_all add: m' erase_all_filter)
    then have "(fst p, snd p) \<in> set ts" by simp
    from visit_survivors [OF v this \<open>fst p \<notin> set rs\<close>]
    show "handler (snd p) \<noteq> None \<and> clk (fst p) < next_time (snd p)" .
  qed
  from visit_idle [OF this, of w2]
  have "visit clk (timers m') w2 = Some (Visited (timers m') [] w2 (map (\<lambda>p. (fst p, 0)) (timers m')))" .
  moreover have "remove m' = []" by (simp add: m')
  ultimately show ?thesis
    by (simp add: manager_update_def erase_all_def)
qed

text \<open>
  C5. Catch-up idempotence. An update that returned "not finished" leaves the timer so
  that a second update at the same clock reading calls the handler zero times and changes
  nothing, whatever the world is by then. A pass of the manager that returned removes
  every timer that reported "finished", so a second pass at the same clock readings
  calls no handler at all and leaves the manager as it is.
\<close>

theorem second_tick_is_idle:
  "(timer_update now t w = Some (Return False t' w' k) \<longrightarrow>
      now < next_time t' \<and> timer_update now t' w2 = Some (Return False t' w2 0)) \<and>
   (manager_update clk m w = Some (Done m' w' lg) \<longrightarrow>
      (\<exists>lg2. manager_update clk m' w2 = Some (Done m' w2 lg2) \<and> total_calls lg2 = 0))"
proof (intro conjI impI)
  assume a: "timer_update now t w = Some (Return False t' w' k)"
  from update_Return_False [OF a] show "now < next_time t'" by simp
  from update_twice_idle [OF a] show "timer_update now t' w2 = Some (Return False t' w2 0)" .
next
  assume "manager_update clk m w = Some (Done m' w' lg)"
  from manager_update_twice [OF this, of w2] total_calls_idle [of "timers m'"]
  show "\<exists>lg2. manager_update clk m' w2 = Some (Done m' w2 lg2) \<and> total_calls lg2 = 0"
    by blast
qed

theorem second_tick_is_idle_witness:
  "timer_update 12 \<lparr>handler = Some (\<lambda>w. Returned (Suc w)), next_time = 0, interval = 5, count = 0\<rparr> (0::nat) =
     Some (Return False \<lparr>handler = Some (\<lambda>w. Returned (Suc w)), next_time = 15, interval = 5, count = 0\<rparr> 3 3) \<and>
   timer_update 12 \<lparr>handler = Some (\<lambda>w. Returned (Suc w)), next_time = 15, interval = 5, count = 0\<rparr> (3::nat) =
     Some (Return False \<lparr>handler = Some (\<lambda>w. Returned (Suc w)), next_time = 15, interval = 5, count = 0\<rparr> 3 0) \<and>
   manager_update (\<lambda>i. 12)
     \<lparr>ids = 2,
      timers = [(0, \<lparr>handler = Some (\<lambda>w. Returned (Suc w)), next_time = 0, interval = 5, count = 0\<rparr>),
                (1, \<lparr>handler = Some (\<lambda>w. Returned (Suc w)), next_time = 10, interval = 10, count = - 1\<rparr>)],
      remove = []\<rparr> (0::nat) =
     Some (Done
       \<lparr>ids = 2,
        timers = [(0, \<lparr>handler = Some (\<lambda>w. Returned (Suc w)), next_time = 15, interval = 5, count = 0\<rparr>)],
        remove = []\<rparr> 4 [(0, 3), (1, 1)]) \<and>
   (\<exists>lg2. manager_update (\<lambda>i. 12)
       \<lparr>ids = 2,
        timers = [(0, \<lparr>handler = Some (\<lambda>w. Returned (Suc w)), next_time = 15, interval = 5, count = 0\<rparr>)],
        remove = []\<rparr> (4::nat) =
     Some (Done
       \<lparr>ids = 2,
        timers = [(0, \<lparr>handler = Some (\<lambda>w. Returned (Suc w)), next_time = 15, interval = 5, count = 0\<rparr>)],
        remove = []\<rparr> 4 lg2) \<and> total_calls lg2 = 0)"
proof -
  let ?h = "Some (\<lambda>w::nat. Returned (Suc w))"
  let ?t = "\<lparr>handler = ?h, next_time = 0, interval = 5, count = 0\<rparr>"
  let ?t' = "\<lparr>handler = ?h, next_time = 15, interval = 5, count = 0\<rparr>"
  let ?o = "\<lparr>handler = ?h, next_time = 10, interval = 10, count = - 1\<rparr>"
  let ?o' = "\<lparr>handler = ?h, next_time = 20, interval = 10, count = - 1\<rparr>"
  let ?m = "\<lparr>ids = 2, timers = [(0, ?t), (1, ?o)], remove = []\<rparr>"
  let ?m' = "\<lparr>ids = 2, timers = [(0, ?t')], remove = []\<rparr>"
  have u: "timer_update 12 ?t w = Some (Return False ?t' (Suc (Suc (Suc w))) 3)" for w
    by (simp add: timer_update_def catch_up.simps execute_def)
  have o: "timer_update 12 ?o w = Some (Return True ?o' (Suc w) 1)" for w
    by (simp add: timer_update_def execute_def)
  have p: "manager_update (\<lambda>i. 12) ?m 0 = Some (Done ?m' 4 [(0, 3), (1, 1)])"
    by (simp add: manager_update_def u o erase_all_def AList.delete_eq)
  have a: "timer_update 12 ?t 0 = Some (Return False ?t' 3 3)"
    using u [of 0] by (simp add: numeral_3_eq_3)
  note T = second_tick_is_idle [where now = 12 and t = ?t and w = 0 and t' = ?t' and w' = 3 and k = 3
      and ?w2.0 = 3 and clk = "\<lambda>i. 12" and m = ?m and m' = ?m' and lg = "[(0, 3), (1, 1)]"]
  from T [THEN conjunct1] a
  have b: "timer_update 12 ?t' 3 = Some (Return False ?t' 3 0)" by blast
  from second_tick_is_idle [where ?w2.0 = 4 and clk = "\<lambda>i. 12" and m = ?m and w = 0 and m' = ?m'
      and w' = 4 and lg = "[(0, 3), (1, 1)]", THEN conjunct2] p
  have c: "\<exists>lg2. manager_update (\<lambda>i. 12) ?m' 4 = Some (Done ?m' 4 lg2) \<and> total_calls lg2 = 0"
    by blast
  from a b p c show ?thesis by (intro conjI)
qed

section \<open>Cancellation\<close>

lemma cancel_funpow:
  "(cancel i ^^ n) m = (if i \<noteq> invalid_timer then m\<lparr>remove := remove m @ replicate n i\<rparr> else m)"
proof (induction n)
  case 0
  then show ?case by simp
next
  case (Suc n)
  have "(cancel i ^^ Suc n) m = cancel i ((cancel i ^^ n) m)" by simp
  also have "\<dots> = cancel i (if i \<noteq> invalid_timer then m\<lparr>remove := remove m @ replicate n i\<rparr> else m)"
    by (simp only: Suc.IH)
  also have "\<dots> = (if i \<noteq> invalid_timer then m\<lparr>remove := remove m @ replicate (Suc n) i\<rparr> else m)"
    by (simp add: cancel_def replicate_append_same)
  finally show ?case .
qed

lemma erase_all_cong:
  "set rs = set rs' \<Longrightarrow> erase_all rs ts = erase_all rs' ts"
  by (simp add: erase_all_filter)

lemma manager_update_remove_cong:
  assumes "set (remove m2) = set (remove m)" and "timers m2 = timers m" and "ids m2 = ids m"
    and "manager_update clk m w = Some (Done m' w' lg)"
  shows "manager_update clk m2 w = Some (Done m' w' lg)"
proof -
  from assms(4) obtain ts rs where
    v: "visit clk (timers m) w = Some (Visited ts rs w' lg)"
    and m': "m' = m\<lparr>timers := erase_all (remove m @ rs) ts, remove := []\<rparr>"
    by (auto simp: manager_update_def split: option.splits visited.splits)
  have "erase_all (remove m2 @ rs) ts = erase_all (remove m @ rs) ts"
    by (rule erase_all_cong) (simp add: assms(1))
  moreover have "m2\<lparr>timers := erase_all (remove m @ rs) ts, remove := []\<rparr> = m'"
    unfolding m' using assms(2,3) by (intro manager.equality) simp_all
  ultimately show ?thesis using v assms(2) by (simp add: manager_update_def)
qed

lemma manager_update_cancel_absent:
  assumes "i \<notin> fst ` set (timers m)"
    and "manager_update clk m w = Some (Done m' w' lg)"
  shows "manager_update clk (cancel i m) w = Some (Done m' w' lg)"
proof (cases "i = invalid_timer")
  case True
  then show ?thesis using assms(2) by (simp add: cancel_def)
next
  case False
  from assms(2) obtain ts rs where
    v: "visit clk (timers m) w = Some (Visited ts rs w' lg)"
    and m': "m' = m\<lparr>timers := erase_all (remove m @ rs) ts, remove := []\<rparr>"
    by (auto simp: manager_update_def split: option.splits visited.splits)
  from visit_Visited_keys [OF v] have "fst ` set ts = fst ` set (timers m)"
    by (metis set_map)
  then have "i \<notin> fst ` set ts" using assms(1) by simp
  then have "erase_all ((remove m @ [i]) @ rs) ts = erase_all (remove m @ rs) ts"
    unfolding erase_all_filter by (intro filter_cong) auto
  then show ?thesis using v False by (simp add: manager_update_def cancel_def m')
qed

text \<open>
  C6. \<open>cancel\<close> with the invalid identifier returns the manager unchanged. Calling
  \<open>cancel\<close> with one identifier several times in a row gives, after the next pass that
  returns, the state, the world and the calls that a single \<open>cancel\<close> gives. \<open>cancel\<close> with
  an identifier that is not a key of \<open>timers\<close> (its timer fired and was removed) leaves
  the outcome of the next pass as it would be without the call. In a pass that returns,
  every cancelled identifier is gone from \<open>timers\<close> and \<open>remove\<close> is empty.
\<close>

theorem cancel_is_idempotent:
  "cancel invalid_timer m = m \<and>
   (manager_update clk (cancel i m) w = Some (Done m' w' lg) \<longrightarrow>
      manager_update clk ((cancel i ^^ Suc n) m) w = Some (Done m' w' lg) \<and>
      (i \<noteq> invalid_timer \<longrightarrow> i \<notin> fst ` set (timers m')) \<and> remove m' = []) \<and>
   (i \<notin> fst ` set (timers m) \<and> manager_update clk m w = Some (Done m' w' lg) \<longrightarrow>
      manager_update clk (cancel i m) w = Some (Done m' w' lg))"
proof (intro conjI impI)
  show "cancel invalid_timer m = m" by (simp add: cancel_def)
next
  assume a: "manager_update clk (cancel i m) w = Some (Done m' w' lg)"
  have "set (remove ((cancel i ^^ Suc n) m)) = set (remove (cancel i m))"
    and "timers ((cancel i ^^ Suc n) m) = timers (cancel i m)"
    and "ids ((cancel i ^^ Suc n) m) = ids (cancel i m)"
    unfolding cancel_funpow by (auto simp: cancel_def)
  from manager_update_remove_cong [OF this a]
  show "manager_update clk ((cancel i ^^ Suc n) m) w = Some (Done m' w' lg)" .
  from a obtain ts rs where
    m': "m' = (cancel i m)\<lparr>timers := erase_all (remove (cancel i m) @ rs) ts, remove := []\<rparr>"
    by (auto simp: manager_update_def split: option.splits visited.splits)
  then show "remove m' = []" by simp
  assume "i \<noteq> invalid_timer"
  then show "i \<notin> fst ` set (timers m')"
    by (auto simp: m' erase_all_filter cancel_def)
next
  assume "i \<notin> fst ` set (timers m) \<and> manager_update clk m w = Some (Done m' w' lg)"
  then show "manager_update clk (cancel i m) w = Some (Done m' w' lg)"
    by (simp add: manager_update_cancel_absent)
qed

theorem cancel_is_idempotent_witness:
  "manager_update (\<lambda>i. 0)
     (cancel 1 \<lparr>ids = 2,
        timers = [(0, \<lparr>handler = Some (\<lambda>w. Returned (Suc w)), next_time = 100, interval = 100, count = 0\<rparr>),
                  (1, \<lparr>handler = Some (\<lambda>w. Returned (Suc w)), next_time = 100, interval = 100, count = 0\<rparr>)],
        remove = []\<rparr>) (0::nat) =
     Some (Done \<lparr>ids = 2,
        timers = [(0, \<lparr>handler = Some (\<lambda>w. Returned (Suc w)), next_time = 100, interval = 100, count = 0\<rparr>)],
        remove = []\<rparr> 0 [(0, 0), (1, 0)]) \<and>
   manager_update (\<lambda>i. 0)
     ((cancel 1 ^^ 3) \<lparr>ids = 2,
        timers = [(0, \<lparr>handler = Some (\<lambda>w. Returned (Suc w)), next_time = 100, interval = 100, count = 0\<rparr>),
                  (1, \<lparr>handler = Some (\<lambda>w. Returned (Suc w)), next_time = 100, interval = 100, count = 0\<rparr>)],
        remove = []\<rparr>) (0::nat) =
     Some (Done \<lparr>ids = 2,
        timers = [(0, \<lparr>handler = Some (\<lambda>w. Returned (Suc w)), next_time = 100, interval = 100, count = 0\<rparr>)],
        remove = []\<rparr> 0 [(0, 0), (1, 0)]) \<and>
   manager_update (\<lambda>i. 0)
     (cancel 1 \<lparr>ids = 2,
        timers = [(0, \<lparr>handler = Some (\<lambda>w. Returned (Suc w)), next_time = 100, interval = 100, count = 0\<rparr>)],
        remove = []\<rparr>) (0::nat) =
     Some (Done \<lparr>ids = 2,
        timers = [(0, \<lparr>handler = Some (\<lambda>w. Returned (Suc w)), next_time = 100, interval = 100, count = 0\<rparr>)],
        remove = []\<rparr> 0 [(0, 0)])"
proof -
  let ?T = "\<lparr>handler = Some (\<lambda>w::nat. Returned (Suc w)), next_time = 100, interval = 100, count = 0\<rparr>"
  let ?M = "\<lparr>ids = 2, timers = [(0, ?T), (1, ?T)], remove = []\<rparr>"
  let ?D = "\<lparr>ids = 2, timers = [(0, ?T)], remove = []\<rparr>"
  have u: "timer_update 0 ?T w = Some (Return False ?T w 0)" for w
    by (simp add: timer_update_def)
  have i: "(1 :: timer_id) \<noteq> invalid_timer" by (simp add: invalid_timer_def)
  have p: "manager_update (\<lambda>i. 0) (cancel 1 ?M) 0 = Some (Done ?D 0 [(0, 0), (1, 0)])"
    by (simp add: manager_update_def cancel_def i u erase_all_def AList.delete_eq)
  have q: "manager_update (\<lambda>i. 0) ?D 0 = Some (Done ?D 0 [(0, 0)])"
    by (simp add: manager_update_def u erase_all_def)
  have n: "(1 :: timer_id) \<notin> fst ` set (timers ?D)" by simp
  from cancel_is_idempotent [where i = 1 and m = ?M and clk = "\<lambda>i. 0" and w = 0 and m' = ?D
      and w' = 0 and lg = "[(0, 0), (1, 0)]" and n = 2, THEN conjunct2, THEN conjunct1] p
  have a: "manager_update (\<lambda>i. 0) ((cancel 1 ^^ 3) ?M) 0 = Some (Done ?D 0 [(0, 0), (1, 0)])"
    by (simp add: numeral_3_eq_3)
  from cancel_is_idempotent [where i = 1 and m = ?D and clk = "\<lambda>i. 0" and w = 0 and m' = ?D
      and w' = 0 and lg = "[(0, 0)]", THEN conjunct2, THEN conjunct2] n q
  have b: "manager_update (\<lambda>i. 0) (cancel 1 ?D) 0 = Some (Done ?D 0 [(0, 0)])"
    by blast
  from p a b show ?thesis by (intro conjI)
qed

section \<open>Clearing the manager\<close>

lemma get_id_clear: "get_id (clear m) = Some (0, (clear m)\<lparr>ids := 1\<rparr>)"
proof -
  have "get_id_loop ([] :: (timer_id \<times> 'a timer) list) 0 = Some (0, 1)"
    by (subst get_id_loop.simps) (simp add: invalid_timer_def)
  then show ?thesis by (simp add: get_id_def clear_def)
qed

text \<open>
  C10. \<open>clear\<close> empties \<open>timers\<close> and sets the counter to zero; \<open>remove\<close> is as it was,
  so an identifier cancelled before \<open>clear\<close> is still pending after it. The counter
  starts again at zero: when the identifier zero is pending, the first timer registered
  after \<open>clear\<close> gets it, and the next pass erases that timer although nobody cancelled
  it and it was not even due.
\<close>

theorem clear_keeps_pending_removals:
  "clear m = m\<lparr>ids := 0, timers := []\<rparr> \<and>
   remove (clear m) = remove m \<and>
   (i \<noteq> invalid_timer \<longrightarrow> i \<in> set (remove (clear (cancel i m)))) \<and>
   (0 \<in> set (remove m) \<longrightarrow>
      timeout h d now (clear m) =
        Some (0, m\<lparr>ids := 1, timers := [(0, new_timer h d (- 1) now)]\<rparr>) \<and>
      (h \<noteq> None \<and> clk 0 < now + d \<longrightarrow>
         manager_update clk (m\<lparr>ids := 1, timers := [(0, new_timer h d (- 1) now)]\<rparr>) w =
           Some (Done (m\<lparr>ids := 1, timers := [], remove := []\<rparr>) w [(0, 0)])))"
proof (intro conjI impI)
  show "clear m = m\<lparr>ids := 0, timers := []\<rparr>" by (simp add: clear_def)
  show "remove (clear m) = remove m" by (simp add: clear_def)
next
  assume "i \<noteq> invalid_timer"
  then show "i \<in> set (remove (clear (cancel i m)))" by (simp add: clear_def cancel_def)
next
  assume "0 \<in> set (remove m)"
  show "timeout h d now (clear m) =
      Some (0, m\<lparr>ids := 1, timers := [(0, new_timer h d (- 1) now)]\<rparr>)"
    by (simp add: timeout_def register_def get_id_clear) (simp add: clear_def)
next
  assume p: "0 \<in> set (remove m)" and "h \<noteq> None \<and> clk 0 < now + d"
  then have "timer_update (clk 0) (new_timer h d (- 1) now) w =
      Some (Return False (new_timer h d (- 1) now) w 0)"
    by (intro update_idle) (simp_all add: new_timer_def)
  then have "visit clk [(0, new_timer h d (- 1) now)] w =
      Some (Visited [(0, new_timer h d (- 1) now)] [] w [(0, 0)])"
    by simp
  moreover have "erase_all (remove m) [(0, new_timer h d (- 1) now)] = []"
    using p by (simp add: erase_all_filter)
  ultimately show "manager_update clk (m\<lparr>ids := 1, timers := [(0, new_timer h d (- 1) now)]\<rparr>) w =
      Some (Done (m\<lparr>ids := 1, timers := [], remove := []\<rparr>) w [(0, 0)])"
    by (simp add: manager_update_def)
qed

theorem clear_keeps_pending_removals_witness:
  "(0 :: timer_id) \<in> set (remove (cancel 0 (manager_init :: nat manager))) \<and>
   timeout (Some (\<lambda>w. Returned (Suc w))) 10 0 (clear (cancel 0 (manager_init :: nat manager))) =
     Some (0, \<lparr>ids = 1,
       timers = [(0, \<lparr>handler = Some (\<lambda>w. Returned (Suc w)), next_time = 10, interval = 10, count = - 1\<rparr>)],
       remove = [0]\<rparr>) \<and>
   manager_update (\<lambda>i. 5) \<lparr>ids = 1,
       timers = [(0, \<lparr>handler = Some (\<lambda>w. Returned (Suc w)), next_time = 10, interval = 10, count = - 1\<rparr>)],
       remove = [0]\<rparr> (0::nat) =
     Some (Done \<lparr>ids = 1, timers = [], remove = []\<rparr> 0 [(0, 0)])"
proof -
  let ?h = "Some (\<lambda>w::nat. Returned (Suc w))"
  let ?c = "cancel 0 (manager_init :: nat manager)"
  have c: "?c = \<lparr>ids = 0, timers = [], remove = [0]\<rparr>"
    by (simp add: cancel_def manager_init_def invalid_timer_def)
  have r: "(0 :: timer_id) \<in> set (remove ?c)" by (simp add: c)
  note T = clear_keeps_pending_removals [where m = ?c and h = ?h and d = 10 and now = 0
      and clk = "\<lambda>i. 5" and w = 0, THEN conjunct2, THEN conjunct2, THEN conjunct2]
  from T r have a: "timeout ?h 10 0 (clear ?c) =
      Some (0, ?c\<lparr>ids := 1, timers := [(0, new_timer ?h 10 (- 1) 0)]\<rparr>)"
    by blast
  from T r have b: "manager_update (\<lambda>i. 5) (?c\<lparr>ids := 1, timers := [(0, new_timer ?h 10 (- 1) 0)]\<rparr>) 0 =
      Some (Done (?c\<lparr>ids := 1, timers := [], remove := []\<rparr>) 0 [(0, 0)])"
    by simp
  from r a b show ?thesis unfolding c by (simp add: new_timer_def)
qed

section \<open>Bounded repetition\<close>

lemma advanced_trans:
  "advanced t k t1 \<Longrightarrow> advanced t1 j t2 \<Longrightarrow> advanced t (k + j) t2"
  by (simp add: advanced_def algebra_simps)

lemma update_bounded:
  assumes "handler t = Some (\<lambda>w. Returned (f w))" and "1 < count t"
  shows "\<exists>fin t' k. timer_update now t w = Some (Return fin t' ((f ^^ k) w) k) \<and>
           advanced t k t' \<and>
           (if fin then count t' = 1 \<and> 0 < k else now < next_time t' \<and> 1 < count t')"
proof (cases "next_time t \<le> now")
  case False
  then have "timer_update now t w = Some (Return False t ((f ^^ 0) w) 0)"
    using assms by (simp add: timer_update_def)
  moreover have "advanced t 0 t" by (simp add: advanced_def)
  ultimately show ?thesis using False assms(2) by force
next
  case True
  from count_down_normal [OF assms, of now w 0] obtain fin t' k where
    c: "count_down now t w 0 = Some (Return fin t' ((f ^^ k) w) k)"
    by auto
  from count_down_post [OF c] assms(2)
  have "advanced t k t'"
    and "if fin then count t' = 1 \<and> 0 < k else now < next_time t' \<and> 1 < count t'"
    by (auto simp: count_down_post_def advanced_def split: if_splits)
  moreover have "timer_update now t w = Some (Return fin t' ((f ^^ k) w) k)"
    using True assms c by (simp add: timer_update_def)
  ultimately show ?thesis by blast
qed

lemma update_bounded_all_due:
  assumes "handler t = Some (\<lambda>w. Returned (f w))" and "1 < count t"
    and "\<forall>j. int j < count t - 1 \<longrightarrow> next_time t + int j * interval t \<le> now"
  shows "\<exists>t'. timer_update now t w =
           Some (Return True t' ((f ^^ nat (count t - 1)) w) (nat (count t - 1))) \<and>
         advanced t (nat (count t - 1)) t'"
proof -
  from update_bounded [OF assms(1,2), of now w] obtain fin t' k where
    u: "timer_update now t w = Some (Return fin t' ((f ^^ k) w) k)"
    and a: "advanced t k t'"
    and c: "if fin then count t' = 1 \<and> 0 < k else now < next_time t' \<and> 1 < count t'"
    by blast
  have fin
  proof (rule ccontr)
    assume "\<not> fin"
    with c have "now < next_time t'" and "1 < count t'" by simp_all
    then have "int k < count t - 1" and "now < next_time t + int k * interval t"
      using a by (simp_all add: advanced_def)
    with assms(3) show False by force
  qed
  with c a have "count t - int k = 1" by (simp add: advanced_def)
  then have "k = nat (count t - 1)" by linarith
  with u a \<open>fin\<close> show ?thesis by auto
qed

lemma ticks_bounded:
  assumes "handler t = Some (\<lambda>w. Returned (f w))" and "1 < count t"
  shows "\<exists>fin t' k. ticks nows t w n = Some (Return fin t' ((f ^^ k) w) (n + k)) \<and>
           advanced t k t' \<and>
           (if fin then count t' = 1 \<and> 0 < k else 1 < count t') \<and>
           ((\<exists>now\<in>set nows. \<forall>j. int j < count t - 1 \<longrightarrow> next_time t + int j * interval t \<le> now)
             \<longrightarrow> fin)"
  using assms
proof (induction nows arbitrary: t w n)
  case Nil
  have "ticks [] t w n = Some (Return False t ((f ^^ 0) w) (n + 0))" by simp
  moreover have "advanced t 0 t" by (simp add: advanced_def)
  ultimately show ?case using Nil.prems(2) by force
next
  case (Cons now nows)
  from update_bounded [OF Cons.prems, of now w] obtain fin1 t1 k1 where
    u: "timer_update now t w = Some (Return fin1 t1 ((f ^^ k1) w) k1)"
    and a: "advanced t k1 t1"
    and c: "if fin1 then count t1 = 1 \<and> 0 < k1 else now < next_time t1 \<and> 1 < count t1"
    by blast
  show ?case
  proof (cases fin1)
    case True
    then have "ticks (now # nows) t w n = Some (Return True t1 ((f ^^ k1) w) (n + k1))"
      using u by simp
    then show ?thesis using a c True by force
  next
    case False
    then have c1: "1 < count t1" using c by simp
    have h1: "handler t1 = Some (\<lambda>w. Returned (f w))"
      using a Cons.prems(1) by (simp add: advanced_def)
    from Cons.IH [OF h1 c1, of "(f ^^ k1) w" "n + k1"] obtain fin t' k where
      r: "ticks nows t1 ((f ^^ k1) w) (n + k1) = Some (Return fin t' ((f ^^ k) ((f ^^ k1) w)) (n + k1 + k))"
      and a2: "advanced t1 k t'"
      and c2: "if fin then count t' = 1 \<and> 0 < k else 1 < count t'"
      and d2: "(\<exists>now\<in>set nows. \<forall>j. int j < count t1 - 1 \<longrightarrow> next_time t1 + int j * interval t1 \<le> now)
             \<longrightarrow> fin"
      by blast
    have w: "(f ^^ k) ((f ^^ k1) w) = (f ^^ (k1 + k)) w"
      by (simp add: funpow_add add.commute [of k1 k])
    have "ticks (now # nows) t w n = Some (Return fin t' ((f ^^ (k1 + k)) w) (n + (k1 + k)))"
      using u False r by (simp add: w add.assoc)
    moreover have "advanced t (k1 + k) t'" using a a2 by (rule advanced_trans)
    moreover have "if fin then count t' = 1 \<and> 0 < k1 + k else 1 < count t'"
      using c2 by auto
    moreover have "(\<exists>now\<in>set (now # nows). \<forall>j. int j < count t - 1 \<longrightarrow>
        next_time t + int j * interval t \<le> now) \<longrightarrow> fin"
    proof
      assume "\<exists>now\<in>set (now # nows). \<forall>j. int j < count t - 1 \<longrightarrow>
        next_time t + int j * interval t \<le> now"
      then obtain x where x: "x \<in> set (now # nows)"
        and g: "\<forall>j. int j < count t - 1 \<longrightarrow> next_time t + int j * interval t \<le> x"
        by blast
      have "x \<noteq> now"
      proof
        assume "x = now"
        with update_bounded_all_due [OF Cons.prems, of now w] g u False show False by auto
      qed
      with x have "x \<in> set nows" by simp
      moreover have "\<forall>j. int j < count t1 - 1 \<longrightarrow> next_time t1 + int j * interval t1 \<le> x"
      proof (intro allI impI)
        fix j assume "int j < count t1 - 1"
        then have "int (k1 + j) < count t - 1" using a by (simp add: advanced_def)
        with g have "next_time t + int (k1 + j) * interval t \<le> x" by blast
        then show "next_time t1 + int j * interval t1 \<le> x"
          using a by (simp add: advanced_def algebra_simps)
      qed
      ultimately show fin using d2 by blast
    qed
    ultimately show ?thesis by blast
  qed
qed

lemma boundaries_between:
  assumes "nx \<le> now" and "nx + a * P \<le> now" and "0 \<le> j" and "j \<le> (a::int)"
  shows "nx + j * P \<le> now"
proof (cases "0 \<le> P")
  case True
  then have "j * P \<le> a * P" using assms(4) by (rule mult_right_mono [rotated])
  then show ?thesis using assms(2) by simp
next
  case False
  then have "j * P \<le> 0" using assms(3) by (simp add: mult_nonneg_nonpos)
  then show ?thesis using assms(1) by simp
qed

lemma update_exhausted:
  "count t = 1 \<Longrightarrow>
   timer_update now t w = Some (Return (handler t = None \<or> next_time t \<le> now) t w 0)"
  by (simp add: timer_update_def)

text \<open>
  C1. A bounded repetition. \<open>repeat\<close> with a count \<open>c\<close> of two or more (and less than
  \<open>INT_MAX\<close>) and a handler that returns stores a timer whose \<open>count\<close> is \<open>c + 1\<close>, first
  due one period after the registration. However the updates of that timer are batched
  (any list of clock readings, one update per reading until one reports "finished"),
  the handler is called \<open>k\<close> times in total with \<open>k \<le> c\<close>; "finished" is reported exactly
  when \<open>k = c\<close>, by the update that makes the \<open>c\<close>-th call; it is reported as soon as one
  reading is at or after the first and the \<open>c\<close>-th period boundary; and once it is
  reported, further updates call nothing. A single update at such a reading makes all
  \<open>c\<close> calls and returns "finished".
\<close>

theorem bounded_repeat_fires_exactly_count:
  assumes "2 \<le> c" and "c < INT_MAX"
    and "repeat (Some (\<lambda>w. Returned (f w))) d c now0 m = Some (i, m')"
  shows "\<exists>t. map_of (timers m') i = Some t \<and> count t = c + 1 \<and>
           next_time t = now0 + d \<and> interval t = d \<and>
           (\<forall>nows w. \<exists>fin t' k.
              ticks nows t w 0 = Some (Return fin t' ((f ^^ k) w) k) \<and>
              int k \<le> c \<and> fin = (int k = c) \<and>
              count t' = c + 1 - int k \<and> next_time t' = now0 + d + int k * d \<and>
              ((\<exists>now\<in>set nows. now0 + d \<le> now \<and> now0 + c * d \<le> now) \<longrightarrow> fin) \<and>
              (fin \<longrightarrow> (\<forall>now w2. \<exists>b. timer_update now t' w2 = Some (Return b t' w2 0)))) \<and>
           (\<forall>now w. now0 + d \<le> now \<and> now0 + c * d \<le> now \<longrightarrow>
              (\<exists>t'. timer_update now t w = Some (Return True t' ((f ^^ nat c) w) (nat c)) \<and>
                 count t' = 1 \<and> next_time t' = now0 + d + c * d))"
proof -
  let ?h = "Some (\<lambda>w. Returned (f w))"
  let ?t = "new_timer ?h d (c + 1) now0"
  have "register ?t m = Some (i, m')"
    using assms by (auto simp: repeat_def split: if_splits)
  then have stored: "map_of (timers m') i = Some ?t" by (rule register_stores)
  have h: "handler ?t = Some (\<lambda>w. Returned (f w))" and c: "1 < count ?t"
    and fields: "count ?t = c + 1" "next_time ?t = now0 + d" "interval ?t = d"
    using assms(1) by (simp_all add: new_timer_def)
  have due: "\<forall>j. int j < count ?t - 1 \<longrightarrow> next_time ?t + int j * interval ?t \<le> now"
    if "now0 + d \<le> now \<and> now0 + c * d \<le> now" for now
  proof (intro allI impI)
    fix j assume "int j < count ?t - 1"
    then have j1: "int j \<le> c - 1" by (simp add: fields)
    have j0: "0 \<le> int j" by simp
    have b1: "now0 + d \<le> now" using that by simp
    have "now0 + d + (c - 1) * d = now0 + c * d" by (simp add: algebra_simps)
    then have b2: "(now0 + d) + (c - 1) * d \<le> now" using that by simp
    from boundaries_between [OF b1 b2 j0 j1] have "(now0 + d) + int j * d \<le> now" .
    then show "next_time ?t + int j * interval ?t \<le> now" by (simp add: fields)
  qed
  have seq: "\<exists>fin t' k.
      ticks nows ?t w 0 = Some (Return fin t' ((f ^^ k) w) k) \<and>
      int k \<le> c \<and> fin = (int k = c) \<and>
      count t' = c + 1 - int k \<and> next_time t' = now0 + d + int k * d \<and>
      ((\<exists>now\<in>set nows. now0 + d \<le> now \<and> now0 + c * d \<le> now) \<longrightarrow> fin) \<and>
      (fin \<longrightarrow> (\<forall>now w2. \<exists>b. timer_update now t' w2 = Some (Return b t' w2 0)))" for nows w
  proof -
    from ticks_bounded [OF h c, of nows w 0] obtain fin t' k where
      r: "ticks nows ?t w 0 = Some (Return fin t' ((f ^^ k) w) k)"
      and a: "advanced ?t k t'"
      and e: "if fin then count t' = 1 \<and> 0 < k else 1 < count t'"
      and g: "(\<exists>now\<in>set nows. \<forall>j. int j < count ?t - 1 \<longrightarrow>
          next_time ?t + int j * interval ?t \<le> now) \<longrightarrow> fin"
      by auto
    have ct: "count t' = c + 1 - int k" and nt: "next_time t' = now0 + d + int k * d"
      using a by (simp_all add: advanced_def fields)
    have k1: "int k \<le> c" and k2: "fin = (int k = c)"
      using e ct by (auto split: if_splits)
    have k3: "(\<exists>now\<in>set nows. now0 + d \<le> now \<and> now0 + c * d \<le> now) \<longrightarrow> fin"
    proof
      assume "\<exists>now\<in>set nows. now0 + d \<le> now \<and> now0 + c * d \<le> now"
      then obtain x where "x \<in> set nows" and "now0 + d \<le> x \<and> now0 + c * d \<le> x" by blast
      with due [of x] g show fin by blast
    qed
    have k4: "fin \<longrightarrow> (\<forall>now w2. \<exists>b. timer_update now t' w2 = Some (Return b t' w2 0))"
    proof (intro impI allI)
      fix now w2 assume fin
      then have "count t' = 1" using e by simp
      from update_exhausted [OF this, of now w2]
      show "\<exists>b. timer_update now t' w2 = Some (Return b t' w2 0)" by (intro exI)
    qed
    from r k1 k2 ct nt k3 k4
    have "ticks nows ?t w 0 = Some (Return fin t' ((f ^^ k) w) k) \<and>
      int k \<le> c \<and> fin = (int k = c) \<and>
      count t' = c + 1 - int k \<and> next_time t' = now0 + d + int k * d \<and>
      ((\<exists>now\<in>set nows. now0 + d \<le> now \<and> now0 + c * d \<le> now) \<longrightarrow> fin) \<and>
      (fin \<longrightarrow> (\<forall>now w2. \<exists>b. timer_update now t' w2 = Some (Return b t' w2 0)))"
      by (intro conjI)
    then show ?thesis by (intro exI)
  qed
  have one: "now0 + d \<le> now \<and> now0 + c * d \<le> now \<longrightarrow>
      (\<exists>t'. timer_update now ?t w = Some (Return True t' ((f ^^ nat c) w) (nat c)) \<and>
         count t' = 1 \<and> next_time t' = now0 + d + c * d)" for now w
  proof
    assume b: "now0 + d \<le> now \<and> now0 + c * d \<le> now"
    from update_bounded_all_due [OF h c due [OF b], of w] obtain t' where
      u: "timer_update now ?t w = Some (Return True t' ((f ^^ nat (count ?t - 1)) w) (nat (count ?t - 1)))"
      and a: "advanced ?t (nat (count ?t - 1)) t'"
      by blast
    have n: "nat (count ?t - 1) = nat c" by (simp add: fields)
    have "count t' = 1" and "next_time t' = now0 + d + c * d"
      using a assms(1) unfolding n by (simp_all add: advanced_def fields)
    with u have "timer_update now ?t w = Some (Return True t' ((f ^^ nat c) w) (nat c)) \<and>
         count t' = 1 \<and> next_time t' = now0 + d + c * d"
      unfolding n by (intro conjI)
    then show "\<exists>t'. timer_update now ?t w = Some (Return True t' ((f ^^ nat c) w) (nat c)) \<and>
         count t' = 1 \<and> next_time t' = now0 + d + c * d"
      by (intro exI)
  qed
  show ?thesis
  proof (intro exI [of _ ?t] conjI)
    show "map_of (timers m') i = Some ?t" by (rule stored)
    show "count ?t = c + 1" by (rule fields)
    show "next_time ?t = now0 + d" by (rule fields)
    show "interval ?t = d" by (rule fields)
    show "\<forall>nows w. \<exists>fin t' k.
              ticks nows ?t w 0 = Some (Return fin t' ((f ^^ k) w) k) \<and>
              int k \<le> c \<and> fin = (int k = c) \<and>
              count t' = c + 1 - int k \<and> next_time t' = now0 + d + int k * d \<and>
              ((\<exists>now\<in>set nows. now0 + d \<le> now \<and> now0 + c * d \<le> now) \<longrightarrow> fin) \<and>
              (fin \<longrightarrow> (\<forall>now w2. \<exists>b. timer_update now t' w2 = Some (Return b t' w2 0)))"
      by (intro allI) (rule seq)
    show "\<forall>now w. now0 + d \<le> now \<and> now0 + c * d \<le> now \<longrightarrow>
              (\<exists>t'. timer_update now ?t w = Some (Return True t' ((f ^^ nat c) w) (nat c)) \<and>
                 count t' = 1 \<and> next_time t' = now0 + d + c * d)"
      by (intro allI) (rule one)
  qed
qed

theorem bounded_repeat_fires_exactly_count_witness:
  "(2::int) \<le> 3 \<and> 3 < INT_MAX \<and>
   repeat (Some (\<lambda>w. Returned (Suc w))) 5 3 0 (manager_init :: nat manager) =
     Some (0, \<lparr>ids = 1,
       timers = [(0, \<lparr>handler = Some (\<lambda>w. Returned (Suc w)), next_time = 5, interval = 5, count = 4\<rparr>)],
       remove = []\<rparr>) \<and>
   (\<exists>t'. ticks [7, 12, 30, 40]
       \<lparr>handler = Some (\<lambda>w. Returned (Suc w)), next_time = 5, interval = 5, count = 4\<rparr> (0::nat) 0 =
         Some (Return True t' 3 3) \<and> count t' = 1 \<and> next_time t' = 20) \<and>
   ticks [7, 12, 30, 40]
       \<lparr>handler = Some (\<lambda>w. Returned (Suc w)), next_time = 5, interval = 5, count = 4\<rparr> (0::nat) 0 =
     Some (Return True
       \<lparr>handler = Some (\<lambda>w. Returned (Suc w)), next_time = 20, interval = 5, count = 1\<rparr> 3 3) \<and>
   timer_update 100
       \<lparr>handler = Some (\<lambda>w. Returned (Suc w)), next_time = 5, interval = 5, count = 4\<rparr> (0::nat) =
     Some (Return True
       \<lparr>handler = Some (\<lambda>w. Returned (Suc w)), next_time = 20, interval = 5, count = 1\<rparr> 3 3)"
proof -
  let ?h = "Some (\<lambda>w::nat. Returned (Suc w))"
  let ?T = "\<lparr>handler = ?h, next_time = 5, interval = 5, count = 4\<rparr>"
  let ?F = "\<lparr>handler = ?h, next_time = 20, interval = 5, count = 1\<rparr>"
  let ?M = "\<lparr>ids = 1, timers = [(0, ?T)], remove = []\<rparr>"
  have b: "(2::int) \<le> 3" "3 < INT_MAX" by (simp_all add: INT_MAX_def)
  have g: "get_id_loop ([] :: (timer_id \<times> nat timer) list) 0 = Some (0, 1)"
    by (subst get_id_loop.simps) (simp add: invalid_timer_def)
  have r: "repeat ?h 5 3 0 (manager_init :: nat manager) = Some (0, ?M)"
    by (simp add: repeat_def register_def get_id_def manager_init_def g new_timer_def)
  from bounded_repeat_fires_exactly_count [OF b r] obtain t where
    s: "map_of (timers ?M) 0 = Some t"
    and q: "\<forall>nows w. \<exists>fin t' k.
              ticks nows t w 0 = Some (Return fin t' ((Suc ^^ k) w) k) \<and>
              int k \<le> 3 \<and> fin = (int k = 3) \<and>
              count t' = 3 + 1 - int k \<and> next_time t' = 0 + 5 + int k * 5 \<and>
              ((\<exists>now\<in>set nows. 0 + 5 \<le> now \<and> 0 + 3 * 5 \<le> now) \<longrightarrow> fin) \<and>
              (fin \<longrightarrow> (\<forall>now w2. \<exists>b. timer_update now t' w2 = Some (Return b t' w2 0)))"
    by blast
  from s have t: "t = ?T" by simp
  from q [rule_format, of "[7, 12, 30, 40]" 0] obtain fin t' k where
    x: "ticks [7, 12, 30, 40] t 0 0 = Some (Return fin t' ((Suc ^^ k) 0) k)"
    and y: "fin = (int k = 3)" "count t' = 3 + 1 - int k" "next_time t' = 0 + 5 + int k * 5"
    and z: "(\<exists>now\<in>set [7, 12, 30, 40 :: int]. 0 + 5 \<le> now \<and> 0 + 3 * 5 \<le> now) \<longrightarrow> fin"
    by blast
  have "\<exists>now\<in>set [7, 12, 30, 40 :: int]. 0 + 5 \<le> now \<and> 0 + 3 * 5 \<le> now" by simp
  with z have fin by blast
  with y have k: "k = 3" by simp
  have "ticks [7, 12, 30, 40] ?T 0 0 = Some (Return True t' 3 3) \<and> count t' = 1 \<and> next_time t' = 20"
    using x y \<open>fin\<close> unfolding k t by (simp add: numeral_3_eq_3)
  then have a: "\<exists>t'. ticks [7, 12, 30, 40] ?T 0 0 = Some (Return True t' 3 3) \<and>
      count t' = 1 \<and> next_time t' = 20"
    by (intro exI)
  have e: "ticks [7, 12, 30, 40] ?T 0 0 = Some (Return True ?F 3 3)"
    by (simp add: timer_update_def count_down.simps execute_def)
  have u: "timer_update 100 ?T 0 = Some (Return True ?F 3 3)"
    by (simp add: timer_update_def count_down.simps execute_def)
  from b r a e u show ?thesis by (intro conjI)
qed

section \<open>Interval timers\<close>

lemma update_interval_normal:
  assumes "count t = 0" and "handler t = Some (\<lambda>w. Returned (f w))" and "0 < interval t"
  shows "\<exists>k. timer_update now t w =
           Some (Return False (t\<lparr>next_time := next_time t + int k * interval t\<rparr>) ((f ^^ k) w) k) \<and>
         (\<forall>j. (j < k) = (next_time t + int j * interval t \<le> now))"
proof -
  from catch_up_normal [OF assms(2,3), of now w 0] obtain k where
    c: "catch_up now t w 0 =
      Some (Return False (t\<lparr>next_time := next_time t + int k * interval t\<rparr>) ((f ^^ k) w) (0 + k))"
    and k: "\<forall>j. (j < k) = (next_time t + int j * interval t \<le> now)"
    by blast
  have "timer_update now t w =
      Some (Return False (t\<lparr>next_time := next_time t + int k * interval t\<rparr>) ((f ^^ k) w) k)"
  proof (cases "next_time t \<le> now")
    case True
    then show ?thesis using assms(1,2) c by (simp add: timer_update_def)
  next
    case False
    then have "k = 0" using k [rule_format, of 0] by simp
    then show ?thesis using False assms(2) by (simp add: timer_update_def)
  qed
  with k show ?thesis by blast
qed

lemma update_interval_never_finished:
  assumes "count t = 0" and "handler t \<noteq> None"
    and "timer_update now t w = Some (Return fin t' w' n)"
  shows "\<not> fin \<and> count t' = 0"
proof (cases "next_time t \<le> now")
  case False
  then show ?thesis using assms by (auto simp: timer_update_def)
next
  case True
  then have "catch_up now t w 0 = Some (Return fin t' w' n)"
    using assms by (auto simp: timer_update_def)
  from catch_up_post [OF this] show ?thesis using assms(1) by (simp add: catch_up_post_def)
qed

lemma visit_interval_kept:
  "visit clk ts w = Some (Visited ts' rs w' lg) \<Longrightarrow> distinct (map fst ts) \<Longrightarrow>
   (i, t) \<in> set ts \<Longrightarrow> count t = 0 \<Longrightarrow> handler t \<noteq> None \<Longrightarrow> i \<notin> set rs"
proof (induction ts arbitrary: w ts' rs w' lg)
  case Nil
  then show ?case by simp
next
  case (Cons p ts)
  obtain j u where p: "p = (j, u)" by (cases p)
  from Cons.prems(1) obtain fin t1 w1 k where
    u: "timer_update (clk j) u w = Some (Return fin t1 w1 k)"
    by (auto simp: p split: option.splits tick.splits)
  from Cons.prems(1) u obtain ts1 rs1 lg1 where
    v: "visit clk ts w1 = Some (Visited ts1 rs1 w' lg1)"
    and r: "ts' = (j, t1) # ts1" "rs = (if fin then [j] else []) @ rs1" "lg = (j, k) # lg1"
    by (auto simp: p split: option.splits visited.splits)
  from visit_Visited_keys [OF v] have sub: "set rs1 \<subseteq> fst ` set ts" by simp
  have d: "distinct (map fst ts)" and jn: "j \<notin> fst ` set ts"
    using Cons.prems(2) by (simp_all add: p)
  show ?case
  proof (cases "(i, t) = (j, u)")
    case True
    then have "\<not> fin"
      using update_interval_never_finished [OF _ _ u] Cons.prems(4,5) by simp
    moreover have "i \<notin> set rs1" using True jn sub by auto
    ultimately show ?thesis by (simp add: r)
  next
    case False
    then have m: "(i, t) \<in> set ts" using Cons.prems(3) by (auto simp: p)
    then have "i \<noteq> j" using jn by force
    moreover from Cons.IH [OF v d m Cons.prems(4,5)] have "i \<notin> set rs1" .
    ultimately show ?thesis by (simp add: r)
  qed
qed

lemma manager_update_interval_kept:
  assumes "keys_ok m" and "(i, t) \<in> set (timers m)" and "count t = 0" and "handler t \<noteq> None"
    and "manager_update clk m w = Some (Done m' w' lg)"
  shows "(i \<in> fst ` set (timers m')) = (i \<notin> set (remove m))"
proof -
  from assms(5) obtain ts rs where
    v: "visit clk (timers m) w = Some (Visited ts rs w' lg)"
    and m': "m' = m\<lparr>timers := erase_all (remove m @ rs) ts, remove := []\<rparr>"
    by (auto simp: manager_update_def split: option.splits visited.splits)
  have d: "distinct (map fst (timers m))" using assms(1) by (simp add: keys_ok_def)
  from visit_interval_kept [OF v d assms(2-4)] have n: "i \<notin> set rs" .
  from visit_Visited_keys [OF v] have "fst ` set ts = fst ` set (timers m)"
    by (metis set_map)
  then have "i \<in> fst ` set ts" using assms(2) by force
  then show ?thesis using n by (auto simp: m' erase_all_filter)
qed

text \<open>
  C3. An interval timer (\<open>count\<close> zero) with a non-empty handler. With a handler that
  returns and a positive period, an update calls the handler once for every period
  boundary \<open>next_time + j * interval\<close> that is at or before the clock reading, and moves
  \<open>next_time\<close> past the reading by that many periods. Whatever the handler and the period,
  an update that returns reports "not finished" and leaves \<open>count\<close> at zero. So a pass of
  the manager keeps the timer unless its identifier was pending in \<open>remove\<close>, where only
  \<open>cancel\<close> puts it. \<open>manager_interval\<close> registers such a timer.
\<close>

theorem interval_catches_up_never_finishes:
  assumes "count t = 0" and "handler t = Some h"
  shows "(h = (\<lambda>w. Returned (f w)) \<and> 0 < interval t \<longrightarrow>
           (\<exists>k. timer_update now t w =
                  Some (Return False (t\<lparr>next_time := next_time t + int k * interval t\<rparr>)
                    ((f ^^ k) w) k) \<and>
                (\<forall>j. (j < k) = (next_time t + int j * interval t \<le> now)))) \<and>
         (timer_update now t w = Some (Return fin t' w' n) \<longrightarrow> \<not> fin \<and> count t' = 0) \<and>
         (keys_ok m \<and> (i, t) \<in> set (timers m) \<and>
          manager_update clk m w = Some (Done m' w'' lg) \<longrightarrow>
            (i \<in> fst ` set (timers m')) = (i \<notin> set (remove m))) \<and>
         (manager_interval (Some h) d now0 m0 = Some (i0, m1) \<longrightarrow>
            map_of (timers m1) i0 =
              Some \<lparr>handler = Some h, next_time = now0 + d, interval = d, count = 0\<rparr>)"
proof (intro conjI impI)
  assume "h = (\<lambda>w. Returned (f w)) \<and> 0 < interval t"
  then have "handler t = Some (\<lambda>w. Returned (f w))" and "0 < interval t"
    using assms(2) by simp_all
  from update_interval_normal [OF assms(1) this]
  show "\<exists>k. timer_update now t w =
                  Some (Return False (t\<lparr>next_time := next_time t + int k * interval t\<rparr>)
                    ((f ^^ k) w) k) \<and>
                (\<forall>j. (j < k) = (next_time t + int j * interval t \<le> now))" .
next
  assume u: "timer_update now t w = Some (Return fin t' w' n)"
  have "handler t \<noteq> None" using assms(2) by simp
  from update_interval_never_finished [OF assms(1) this u]
  show "\<not> fin" and "count t' = 0" by simp_all
next
  assume a: "keys_ok m \<and> (i, t) \<in> set (timers m) \<and>
    manager_update clk m w = Some (Done m' w'' lg)"
  have "handler t \<noteq> None" using assms(2) by simp
  with a assms(1) show "(i \<in> fst ` set (timers m')) = (i \<notin> set (remove m))"
    by (intro manager_update_interval_kept [of m i t clk w m' w'' lg]) simp_all
next
  assume "manager_interval (Some h) d now0 m0 = Some (i0, m1)"
  then show "map_of (timers m1) i0 =
      Some \<lparr>handler = Some h, next_time = now0 + d, interval = d, count = 0\<rparr>"
    by (simp add: manager_interval_def new_timer_def register_stores)
qed

theorem interval_catches_up_never_finishes_witness:
  "(\<exists>k. timer_update 12
       \<lparr>handler = Some (\<lambda>w. Returned (Suc w)), next_time = 0, interval = 5, count = 0\<rparr> (0::nat) =
         Some (Return False
           (\<lparr>handler = Some (\<lambda>w. Returned (Suc w)), next_time = 0, interval = 5, count = 0\<rparr>
              \<lparr>next_time := 0 + int k * 5\<rparr>) ((Suc ^^ k) 0) k) \<and>
       (\<forall>j. (j < k) = (0 + int j * 5 \<le> (12::int)))) \<and>
   timer_update 12
       \<lparr>handler = Some (\<lambda>w. Returned (Suc w)), next_time = 0, interval = 5, count = 0\<rparr> (0::nat) =
     Some (Return False
       \<lparr>handler = Some (\<lambda>w. Returned (Suc w)), next_time = 15, interval = 5, count = 0\<rparr> 3 3) \<and>
   manager_update (\<lambda>i. 12)
     \<lparr>ids = 1,
      timers = [(0, \<lparr>handler = Some (\<lambda>w. Returned (Suc w)), next_time = 0, interval = 5, count = 0\<rparr>)],
      remove = []\<rparr> (0::nat) =
     Some (Done
       \<lparr>ids = 1,
        timers = [(0, \<lparr>handler = Some (\<lambda>w. Returned (Suc w)), next_time = 15, interval = 5, count = 0\<rparr>)],
        remove = []\<rparr> 3 [(0, 3)]) \<and>
   (0::timer_id) \<in> fst ` set (timers (\<lparr>ids = 1,
        timers = [(0, \<lparr>handler = Some (\<lambda>w::nat. Returned (Suc w)), next_time = 15, interval = 5, count = 0\<rparr>)],
        remove = []\<rparr>))"
proof -
  let ?f = "\<lambda>w::nat. Returned (Suc w)"
  let ?t = "\<lparr>handler = Some ?f, next_time = 0, interval = 5, count = 0\<rparr>"
  let ?t' = "\<lparr>handler = Some ?f, next_time = 15, interval = 5, count = 0\<rparr>"
  let ?m = "\<lparr>ids = 1, timers = [(0, ?t)], remove = []\<rparr>"
  let ?m' = "\<lparr>ids = 1, timers = [(0, ?t')], remove = []\<rparr>"
  have u: "timer_update 12 ?t w = Some (Return False ?t' (Suc (Suc (Suc w))) 3)" for w
    by (simp add: timer_update_def catch_up.simps execute_def)
  have u0: "timer_update 12 ?t 0 = Some (Return False ?t' 3 3)"
    using u [of 0] by (simp add: numeral_3_eq_3)
  have p: "manager_update (\<lambda>i. 12) ?m 0 = Some (Done ?m' 3 [(0, 3)])"
    by (simp add: manager_update_def u erase_all_def numeral_3_eq_3)
  have k: "keys_ok ?m" by (simp add: keys_ok_def invalid_timer_def)
  note T = interval_catches_up_never_finishes [where t = ?t and h = ?f and f = Suc and now = 12
      and w = 0 and m = ?m and i = 0 and clk = "\<lambda>i. 12" and m' = ?m' and w'' = 3 and lg = "[(0, 3)]"]
  have a: "\<exists>k. timer_update 12 ?t 0 =
         Some (Return False (?t\<lparr>next_time := 0 + int k * 5\<rparr>) ((Suc ^^ k) 0) k) \<and>
       (\<forall>j. (j < k) = (0 + int j * 5 \<le> (12::int)))"
    using T [THEN conjunct1] by simp
  have b: "(0::timer_id) \<in> fst ` set (timers ?m')"
    using T [THEN conjunct2, THEN conjunct2, THEN conjunct1] k p by simp
  from a u0 p b show ?thesis by (intro conjI)
qed

section \<open>Termination of an update\<close>

lemma update_interval_diverges:
  assumes "count t = 0" and "handler t = Some (\<lambda>w. Returned (f w))"
    and "interval t = 0" and "next_time t \<le> now"
  shows "timer_update now t w = None"
  using catch_up_diverges [OF assms(2-4), of w 0] assms by (simp add: timer_update_def)

lemma update_bounded_zero_period:
  assumes "1 < count t" and "handler t = Some (\<lambda>w. Returned (f w))"
    and "interval t = 0" and "next_time t \<le> now"
  shows "\<exists>t'. timer_update now t w =
           Some (Return True t' ((f ^^ nat (count t - 1)) w) (nat (count t - 1))) \<and>
         count t' = 1 \<and> next_time t' = next_time t"
proof -
  have "\<forall>j. int j < count t - 1 \<longrightarrow> next_time t + int j * interval t \<le> now"
    using assms(3,4) by simp
  from update_bounded_all_due [OF assms(2,1) this, of w] obtain t' where
    u: "timer_update now t w =
      Some (Return True t' ((f ^^ nat (count t - 1)) w) (nat (count t - 1)))"
    and a: "advanced t (nat (count t - 1)) t'"
    by blast
  from a assms(1,3) have "count t' = 1" and "next_time t' = next_time t"
    by (simp_all add: advanced_def)
  with u show ?thesis by blast
qed

text \<open>
  C9, as the code has it. An update returns (possibly by an exception of the handler)
  whenever the period is positive. Registration stores the duration it is given without
  any check. For an interval timer (\<open>count\<close> zero) that is due, with a handler that
  returns and the period zero, the update never returns. A bounded timer (\<open>count\<close> above
  one) stops counting at one: with the period zero, when it is due, it makes its
  remaining \<open>count - 1\<close> calls in one update and reports "finished".
\<close>

theorem tick_termination:
  "(0 < interval t \<longrightarrow> (\<exists>r. timer_update now t w = Some r)) \<and>
   (count t = 0 \<and> handler t = Some (\<lambda>w. Returned (f w)) \<and> interval t = 0 \<and> next_time t \<le> now \<longrightarrow>
      timer_update now t w = None) \<and>
   (1 < count t \<and> handler t = Some (\<lambda>w. Returned (f w)) \<and> interval t = 0 \<and> next_time t \<le> now \<longrightarrow>
      (\<exists>t'. timer_update now t w =
              Some (Return True t' ((f ^^ nat (count t - 1)) w) (nat (count t - 1))) \<and>
            count t' = 1 \<and> next_time t' = next_time t)) \<and>
   (length (timers m) < 2 ^ 64 - 1 \<longrightarrow>
      (\<exists>i. timeout h d now0 m =
              Some (i, m\<lparr>ids := i + 1, timers := timers m @
                [(i, \<lparr>handler = h, next_time = now0 + d, interval = d, count = - 1\<rparr>)]\<rparr>)) \<and>
      (\<exists>i. manager_interval h d now0 m =
              Some (i, m\<lparr>ids := i + 1, timers := timers m @
                [(i, \<lparr>handler = h, next_time = now0 + d, interval = d, count = 0\<rparr>)]\<rparr>)) \<and>
      (2 \<le> c \<and> c < INT_MAX \<longrightarrow>
         (\<exists>i. repeat h d c now0 m =
              Some (i, m\<lparr>ids := i + 1, timers := timers m @
                [(i, \<lparr>handler = h, next_time = now0 + d, interval = d, count = c + 1\<rparr>)]\<rparr>))))"
proof (intro conjI impI)
  assume "0 < interval t"
  then show "\<exists>r. timer_update now t w = Some r" by (rule update_terminates)
next
  assume "count t = 0 \<and> handler t = Some (\<lambda>w. Returned (f w)) \<and> interval t = 0 \<and> next_time t \<le> now"
  then show "timer_update now t w = None" by (simp add: update_interval_diverges)
next
  assume "1 < count t \<and> handler t = Some (\<lambda>w. Returned (f w)) \<and> interval t = 0 \<and> next_time t \<le> now"
  then show "\<exists>t'. timer_update now t w =
              Some (Return True t' ((f ^^ nat (count t - 1)) w) (nat (count t - 1))) \<and>
            count t' = 1 \<and> next_time t' = next_time t"
    by (intro update_bounded_zero_period) simp_all
next
  assume l: "length (timers m) < 2 ^ 64 - 1"
  from register_total [OF l, of "new_timer h d (- 1) now0"]
  show "\<exists>i. timeout h d now0 m =
              Some (i, m\<lparr>ids := i + 1, timers := timers m @
                [(i, \<lparr>handler = h, next_time = now0 + d, interval = d, count = - 1\<rparr>)]\<rparr>)"
    by (auto simp: timeout_def new_timer_def)
  from register_total [OF l, of "new_timer h d 0 now0"]
  show "\<exists>i. manager_interval h d now0 m =
              Some (i, m\<lparr>ids := i + 1, timers := timers m @
                [(i, \<lparr>handler = h, next_time = now0 + d, interval = d, count = 0\<rparr>)]\<rparr>)"
    by (auto simp: manager_interval_def new_timer_def)
  assume "2 \<le> c \<and> c < INT_MAX"
  with register_total [OF l, of "new_timer h d (c + 1) now0"]
  show "\<exists>i. repeat h d c now0 m =
              Some (i, m\<lparr>ids := i + 1, timers := timers m @
                [(i, \<lparr>handler = h, next_time = now0 + d, interval = d, count = c + 1\<rparr>)]\<rparr>)"
    by (auto simp: repeat_def new_timer_def)
qed

theorem tick_termination_counterexample:
  "(0::int) \<le> count \<lparr>handler = Some (\<lambda>w::nat. Returned (Suc w)), next_time = 0, interval = 0, count = 3\<rparr> \<and>
   interval \<lparr>handler = Some (\<lambda>w::nat. Returned (Suc w)), next_time = 0, interval = 0, count = 3\<rparr> = 0 \<and>
   next_time \<lparr>handler = Some (\<lambda>w::nat. Returned (Suc w)), next_time = 0, interval = 0, count = 3\<rparr> \<le> 0 \<and>
   timer_update 0 \<lparr>handler = Some (\<lambda>w. Returned (Suc w)), next_time = 0, interval = 0, count = 3\<rparr> (0::nat) =
     Some (Return True \<lparr>handler = Some (\<lambda>w. Returned (Suc w)), next_time = 0, interval = 0, count = 1\<rparr> 2 2)"
  by (simp add: timer_update_def count_down.simps execute_def)

theorem tick_termination_witness:
  "timer_update 0 \<lparr>handler = Some (\<lambda>w. Returned (Suc w)), next_time = 0, interval = 0, count = 0\<rparr> (0::nat) = None \<and>
   (\<exists>r. timer_update 12 \<lparr>handler = Some (\<lambda>w. Returned (Suc w)), next_time = 0, interval = 5, count = 0\<rparr> (0::nat) =
      Some r) \<and>
   (\<exists>t'. timer_update 0 \<lparr>handler = Some (\<lambda>w. Returned (Suc w)), next_time = 0, interval = 0, count = 3\<rparr> (0::nat) =
      Some (Return True t' 2 2) \<and> count t' = 1 \<and> next_time t' = 0) \<and>
   (\<exists>i. manager_interval (Some (\<lambda>w. Returned (Suc w))) 0 7 (manager_init :: nat manager) =
      Some (i, manager_init\<lparr>ids := i + 1, timers := timers manager_init @
        [(i, \<lparr>handler = Some (\<lambda>w. Returned (Suc w)), next_time = 7, interval = 0, count = 0\<rparr>)]\<rparr>))"
proof -
  let ?h = "Some (\<lambda>w::nat. Returned (Suc w))"
  let ?z = "\<lparr>handler = ?h, next_time = 0, interval = 0, count = 0\<rparr>"
  let ?p = "\<lparr>handler = ?h, next_time = 0, interval = 5, count = 0\<rparr>"
  let ?b = "\<lparr>handler = ?h, next_time = 0, interval = 0, count = 3\<rparr>"
  have a: "timer_update 0 ?z 0 = None"
    using tick_termination [where t = ?z and f = Suc and now = 0 and w = 0,
        THEN conjunct2, THEN conjunct1]
    by simp
  have b: "\<exists>r. timer_update 12 ?p 0 = Some r"
    using tick_termination [where t = ?p and now = 12 and w = 0, THEN conjunct1]
    by simp
  have c: "\<exists>t'. timer_update 0 ?b 0 = Some (Return True t' 2 2) \<and> count t' = 1 \<and> next_time t' = 0"
    using tick_termination [where t = ?b and f = Suc and now = 0 and w = 0,
        THEN conjunct2, THEN conjunct2, THEN conjunct1]
    by (simp add: numeral_2_eq_2)
  have d: "\<exists>i. manager_interval ?h 0 7 (manager_init :: nat manager) =
      Some (i, manager_init\<lparr>ids := i + 1, timers := timers manager_init @
        [(i, \<lparr>handler = ?h, next_time = 7, interval = 0, count = 0\<rparr>)]\<rparr>)"
    using tick_termination [where m = "manager_init :: nat manager" and h = ?h and d = 0 and ?now0.0 = 7,
        THEN conjunct2, THEN conjunct2, THEN conjunct2]
    by (simp add: manager_init_def)
  from a b c d show ?thesis by (intro conjI)
qed

end
